theory Spec2Isabelle
  imports Main "HOL-Library.Multiset"
begin

section \<open>The store: nodes, pointers and the tree header\<close>

text \<open>
  A Go pointer \<open>*Node\<close> is either nil or the address of a node; it is modelled as
  \<open>addr option\<close>, with \<open>None\<close> for nil. The nodes live in an explicit store, a
  total function from addresses to node cells, because the code mutates nodes that are
  shared through \<open>parent\<close>, \<open>left\<close> and \<open>right\<close>. Go is memory safe, so a non-nil
  pointer always addresses a cell; the only fault on a pointer is the dereference of nil.
\<close>

type_synonym addr = nat

record 'a node =
  val :: 'a
  parent :: "addr option"
  left :: "addr option"
  right :: "addr option"
  lessFn :: "'a \<Rightarrow> 'a \<Rightarrow> bool"

type_synonym 'a heap = "addr \<Rightarrow> 'a node"

text \<open>
  The \<open>Tree\<close> struct has the fields \<open>root\<close>, \<open>size\<close> and \<open>lessFn\<close> (primed here where
  the name is taken). The state a \<open>*Tree\<close> method works on is that struct together with the
  store of nodes and the next address the allocator hands out. Go's \<open>int\<close> is modelled
  as \<open>int\<close>: \<open>size\<close> counts allocated nodes and cannot reach \<open>2^63\<close>.
\<close>

record 'a Tree =
  root :: "addr option"
  size' :: int
  lessFn' :: "'a \<Rightarrow> 'a \<Rightarrow> bool"

record 'a State = "'a Tree" +
  heap :: "'a heap"
  fresh :: addr

datatype panic = NilDereference | TruncateOutOfRange | IndexOutOfRange

type_synonym 'r result = "panic + 'r"

section \<open>Node methods\<close>

text \<open>
  Every \<open>for\<close> statement of the source follows pointers through the store and need
  not end on a store with a cycle, and so do the recursive walks. Each is a partial
  function into \<open>option\<close>: \<open>None\<close> means that it does not return.
\<close>

definition Val :: "'a heap \<Rightarrow> addr option \<Rightarrow> 'a result" where
  "Val h n = (case n of None \<Rightarrow> Inl NilDereference | Some a \<Rightarrow> Inr (val (h a)))"

text \<open>\<open>for t.left != nil { t = t.left }\<close> and its mirror image, on a non-nil \<open>t\<close>.\<close>

partial_function (option) Min_loop :: "'a heap \<Rightarrow> addr \<Rightarrow> addr option" where
  "Min_loop h t = (case left (h t) of None \<Rightarrow> Some t | Some l \<Rightarrow> Min_loop h l)"

partial_function (option) Max_loop :: "'a heap \<Rightarrow> addr \<Rightarrow> addr option" where
  "Max_loop h t = (case right (h t) of None \<Rightarrow> Some t | Some r \<Rightarrow> Max_loop h r)"

definition Node_Min :: "'a heap \<Rightarrow> addr option \<Rightarrow> addr option option" where
  "Node_Min h t = (case t of None \<Rightarrow> Some None | Some a \<Rightarrow> map_option Some (Min_loop h a))"

definition Node_Max :: "'a heap \<Rightarrow> addr option \<Rightarrow> addr option option" where
  "Node_Max h t = (case t of None \<Rightarrow> Some None | Some a \<Rightarrow> map_option Some (Max_loop h a))"

text \<open>\<open>for p != nil && n == p.right { n = p; p = p.parent }; return p\<close> and its mirror.\<close>

partial_function (option) Next_loop :: "'a heap \<Rightarrow> addr \<Rightarrow> addr option \<Rightarrow> addr option option" where
  "Next_loop h n p =
     (case p of None \<Rightarrow> Some None
      | Some q \<Rightarrow> if Some n = right (h q) then Next_loop h q (parent (h q)) else Some p)"

partial_function (option) Prev_loop :: "'a heap \<Rightarrow> addr \<Rightarrow> addr option \<Rightarrow> addr option option" where
  "Prev_loop h n p =
     (case p of None \<Rightarrow> Some None
      | Some q \<Rightarrow> if Some n = left (h q) then Prev_loop h q (parent (h q)) else Some p)"

text \<open>A nil receiver panics at \<open>n.right\<close> (\<open>n.left\<close> in \<open>Prev\<close>).\<close>

definition Next :: "'a heap \<Rightarrow> addr option \<Rightarrow> addr option result option" where
  "Next h n =
     (case n of None \<Rightarrow> Some (Inl NilDereference)
      | Some a \<Rightarrow>
         (case right (h a) of
            Some r \<Rightarrow> map_option Inr (Node_Min h (Some r))
          | None \<Rightarrow> map_option Inr (Next_loop h a (parent (h a)))))"

definition Prev :: "'a heap \<Rightarrow> addr option \<Rightarrow> addr option result option" where
  "Prev h n =
     (case n of None \<Rightarrow> Some (Inl NilDereference)
      | Some a \<Rightarrow>
         (case left (h a) of
            Some l \<Rightarrow> map_option Inr (Node_Max h (Some l))
          | None \<Rightarrow> map_option Inr (Prev_loop h a (parent (h a)))))"

partial_function (option) Node_Find :: "'a heap \<Rightarrow> addr option \<Rightarrow> 'a \<Rightarrow> addr option option" where
  "Node_Find h t v =
     (case t of None \<Rightarrow> Some None
      | Some a \<Rightarrow>
          if lessFn (h a) v (val (h a)) then Node_Find h (left (h a)) v
          else if lessFn (h a) (val (h a)) v then Node_Find h (right (h a)) v
          else Some (Some a))"

definition Node_Contains :: "'a heap \<Rightarrow> addr option \<Rightarrow> 'a \<Rightarrow> bool option" where
  "Node_Contains h t v = map_option (\<lambda>r. r \<noteq> None) (Node_Find h t v)"

definition maxInt :: "int \<Rightarrow> int \<Rightarrow> int" where
  "maxInt a b = (if a < b then b else a)"

partial_function (option) Node_Height :: "'a heap \<Rightarrow> addr option \<Rightarrow> int option" where
  "Node_Height h t =
     (case t of None \<Rightarrow> Some 0
      | Some a \<Rightarrow>
          Option.bind (Node_Height h (left (h a))) (\<lambda>l.
          Option.bind (Node_Height h (right (h a))) (\<lambda>r.
          Some (1 + maxInt l r))))"

text \<open>
  \<open>String\<close>: the buffer is a \<open>string\<close>; \<open>fmt\<close> is the rendering of a value by the
  verb \<open>%v\<close>. \<open>Truncate n\<close> of \<open>bytes.Buffer\<close> panics unless \<open>0 \<le> n \<le> Len()\<close>.
\<close>

partial_function (option) walk :: "('a \<Rightarrow> string) \<Rightarrow> 'a heap \<Rightarrow> addr option \<Rightarrow> string \<Rightarrow> string option" where
  "walk fmt h n buf =
     (case n of None \<Rightarrow> Some buf
      | Some a \<Rightarrow>
          Option.bind (walk fmt h (left (h a)) buf) (\<lambda>buf1.
          walk fmt h (right (h a)) (buf1 @ fmt (val (h a)) @ '' '')))"

definition Truncate :: "int \<Rightarrow> string \<Rightarrow> string result" where
  "Truncate n buf =
     (if n < 0 \<or> int (length buf) < n then Inl TruncateOutOfRange else Inr (take (nat n) buf))"

definition Node_String :: "('a \<Rightarrow> string) \<Rightarrow> 'a heap \<Rightarrow> addr option \<Rightarrow> string result option" where
  "Node_String fmt h t =
     (case t of None \<Rightarrow> Some (Inr (''['' @ '']''))
      | Some a \<Rightarrow>
          Option.bind (walk fmt h (Some a) ''['') (\<lambda>buf.
          Some (case Truncate (int (length buf) - 1) buf of
                  Inl e \<Rightarrow> Inl e
                | Inr buf' \<Rightarrow> Inr (buf' @ '']''))))"

section \<open>Tree methods\<close>

text \<open>\<open>New\<close> builds the header; the store it lives in is whatever the program has.\<close>

definition New :: "('a \<Rightarrow> 'a \<Rightarrow> bool) \<Rightarrow> 'a heap \<Rightarrow> addr \<Rightarrow> 'a State" where
  "New lt h f = \<lparr>root = None, size' = 0, lessFn' = lt, heap = h, fresh = f\<rparr>"

definition Len :: "'a State \<Rightarrow> int" where
  "Len t = size' t"

definition Root :: "'a State \<Rightarrow> addr option" where
  "Root t = root t"

definition Tree_String :: "('a \<Rightarrow> string) \<Rightarrow> 'a State \<Rightarrow> string result option" where
  "Tree_String fmt t = Node_String fmt (heap t) (root t)"

definition Tree_Find :: "'a State \<Rightarrow> 'a \<Rightarrow> addr option option" where
  "Tree_Find t v = Node_Find (heap t) (root t) v"

definition Tree_Contains :: "'a State \<Rightarrow> 'a \<Rightarrow> bool option" where
  "Tree_Contains t v = map_option (\<lambda>r. r \<noteq> None) (Node_Find (heap t) (root t) v)"

definition Tree_Max :: "'a State \<Rightarrow> addr option option" where
  "Tree_Max t = Node_Max (heap t) (root t)"

definition Tree_Min :: "'a State \<Rightarrow> addr option option" where
  "Tree_Min t = Node_Min (heap t) (root t)"

definition Tree_Height :: "'a State \<Rightarrow> int option" where
  "Tree_Height t = Node_Height (heap t) (root t)"

text \<open>
  \<open>Insert\<close>: the descent returns the pair of \<open>n\<close>, the last node visited, and the node
  found (\<open>Some x\<close> at the early \<open>return x\<close>, \<open>None\<close> when \<open>x\<close> ran into nil).
\<close>

partial_function (option) Insert_loop ::
  "('a \<Rightarrow> 'a \<Rightarrow> bool) \<Rightarrow> 'a heap \<Rightarrow> 'a \<Rightarrow> addr option \<Rightarrow> addr option \<Rightarrow> (addr option \<times> addr option) option" where
  "Insert_loop lt h v n x =
     (case x of None \<Rightarrow> Some (n, None)
      | Some a \<Rightarrow>
          if lt v (val (h a)) then Insert_loop lt h v (Some a) (left (h a))
          else if lt (val (h a)) v then Insert_loop lt h v (Some a) (right (h a))
          else Some (Some a, Some a))"

definition Insert :: "'a State \<Rightarrow> 'a \<Rightarrow> (addr \<times> 'a State) option" where
  "Insert t v =
     Option.bind (Insert_loop (lessFn' t) (heap t) v None (root t)) (\<lambda>(n, found).
       case found of
         Some x \<Rightarrow> Some (x, t)
       | None \<Rightarrow>
           let z = fresh t;
               h = (heap t)(z := \<lparr>val = v, parent = n, left = None, right = None, lessFn = lessFn' t\<rparr>);
               t1 = (case n of
                       None \<Rightarrow> t\<lparr>root := Some z, heap := h\<rparr>
                     | Some a \<Rightarrow>
                         if lessFn' t v (val (h a))
                         then t\<lparr>heap := h(a := (h a)\<lparr>left := Some z\<rparr>)\<rparr>
                         else t\<lparr>heap := h(a := (h a)\<lparr>right := Some z\<rparr>)\<rparr>)
           in Some (z, t1\<lparr>size' := size' t1 + 1, fresh := Suc z\<rparr>))"

text \<open>\<open>transplant(u, v)\<close> with \<open>u\<close> non-nil, as the source assumes.\<close>

definition transplant :: "'a State \<Rightarrow> addr \<Rightarrow> addr option \<Rightarrow> 'a State" where
  "transplant t u v =
     (let h = heap t;
          t1 = (case parent (h u) of
                  None \<Rightarrow> t\<lparr>root := v\<rparr>
                | Some p \<Rightarrow>
                    if Some u = left (h p) then t\<lparr>heap := h(p := (h p)\<lparr>left := v\<rparr>)\<rparr>
                    else t\<lparr>heap := h(p := (h p)\<lparr>right := v\<rparr>)\<rparr>)
      in case v of
           None \<Rightarrow> t1
         | Some w \<Rightarrow> t1\<lparr>heap := (heap t1)(w := (heap t1 w)\<lparr>parent := parent (heap t1 u)\<rparr>)\<rparr>)"

text \<open>\<open>for s.left != nil { s = s.left }\<close> inside \<open>removeNode\<close>.\<close>

partial_function (option) removeNode_loop :: "'a heap \<Rightarrow> addr \<Rightarrow> addr option" where
  "removeNode_loop h s = (case left (h s) of None \<Rightarrow> Some s | Some l \<Rightarrow> removeNode_loop h l)"

text \<open>
  \<open>removeNode(n)\<close> with \<open>n\<close> non-nil. In the third branch \<open>s.right.parent = s\<close>
  and \<open>s.left.parent = s\<close> dereference \<open>s.right\<close> and \<open>s.left\<close>, which were
  just assigned from \<open>n.right\<close> and \<open>n.left\<close>; a nil there is a panic. On a panic
  \<open>t.size--\<close> is not reached.
\<close>

definition removeNode :: "'a State \<Rightarrow> addr \<Rightarrow> 'a State result option" where
  "removeNode t n =
     map_option (map_sum id (\<lambda>t'. t'\<lparr>size' := size' t' - 1\<rparr>))
       (case left (heap t n) of
          None \<Rightarrow> Some (Inr (transplant t n (right (heap t n))))
        | Some nl0 \<Rightarrow>
           (case right (heap t n) of
              None \<Rightarrow> Some (Inr (transplant t n (left (heap t n))))
            | Some nr0 \<Rightarrow>
                Option.bind (removeNode_loop (heap t) nr0) (\<lambda>s.
                  case (if parent (heap t s) \<noteq> Some n
                        then (let t2 = transplant t s (right (heap t s));
                                  h2 = heap t2;
                                  h3 = h2(s := (h2 s)\<lparr>right := right (h2 n)\<rparr>)
                              in case right (h3 s) of
                                   None \<Rightarrow> Inl NilDereference
                                 | Some nr \<Rightarrow> Inr (t2\<lparr>heap := h3(nr := (h3 nr)\<lparr>parent := Some s\<rparr>)\<rparr>))
                        else Inr t) of
                    Inl e \<Rightarrow> Some (Inl e)
                  | Inr t1 \<Rightarrow>
                      (let t4 = transplant t1 n (Some s);
                           h4 = heap t4;
                           h5 = h4(s := (h4 s)\<lparr>left := left (h4 n)\<rparr>)
                       in case left (h5 s) of
                            None \<Rightarrow> Some (Inl NilDereference)
                          | Some nl \<Rightarrow> Some (Inr (t4\<lparr>heap := h5(nl := (h5 nl)\<lparr>parent := Some s\<rparr>)\<rparr>))))))"

definition Delete :: "'a State \<Rightarrow> 'a \<Rightarrow> (bool \<times> 'a State) result option" where
  "Delete t v =
     Option.bind (Tree_Find t v) (\<lambda>r.
       case r of
         Some n \<Rightarrow> map_option (map_sum id (\<lambda>t'. (True, t'))) (removeNode t n)
       | None \<Rightarrow> Some (Inr (False, t)))"

text \<open>\<open>Init\<close>: \<open>Insert\<close> each element in order, the returned node dropped.\<close>

fun Init :: "'a State \<Rightarrow> 'a list \<Rightarrow> 'a State option" where
  "Init t [] = Some t"
| "Init t (v # vs) = Option.bind (Insert t v) (\<lambda>(z, t'). Init t' vs)"

text \<open>
  \<open>RandInit\<close>: \<open>rnd i\<close> is the value \<open>rand.Intn(i + 1)\<close> returns at step \<open>i\<close>.
  The loop \<open>for i := n - 1; i >= 0; i--\<close> is a recursion on \<open>i + 1\<close>. An index
  expression out of range panics. The tuple assignment reads \<open>idx[i]\<close> and
  \<open>idx[r]\<close> first and then writes \<open>idx[r]\<close> and \<open>idx[i]\<close>.
\<close>

fun RandInit_loop ::
  "(nat \<Rightarrow> nat) \<Rightarrow> 'a list \<Rightarrow> nat \<Rightarrow> nat list \<Rightarrow> 'a State \<Rightarrow> 'a State result option" where
  "RandInit_loop rnd vs 0 idx t = Some (Inr t)"
| "RandInit_loop rnd vs (Suc i) idx t =
     (let r = rnd i in
      if length idx \<le> r then Some (Inl IndexOutOfRange)
      else if length vs \<le> idx ! r then Some (Inl IndexOutOfRange)
      else Option.bind (Insert t (vs ! (idx ! r))) (\<lambda>(z, t').
             if length idx \<le> i then Some (Inl IndexOutOfRange)
             else RandInit_loop rnd vs i (idx[r := idx ! i, i := idx ! r]) t'))"

definition RandInit :: "(nat \<Rightarrow> nat) \<Rightarrow> 'a State \<Rightarrow> 'a list \<Rightarrow> 'a State result option" where
  "RandInit rnd t vs = RandInit_loop rnd vs (length vs) [0..<length vs] t"

section \<open>The tree a store holds\<close>

text \<open>
  The pointer structure below a pointer is described by a finite binary tree of
  (address, value) pairs. \<open>shape lt h p par t\<close> says that the pointer \<open>p\<close> in the store
  \<open>h\<close> is the root of exactly the tree \<open>t\<close>: every node stores its value and the
  comparator \<open>lt\<close>, its \<open>parent\<close> field is its parent in \<open>t\<close> (\<open>par\<close> at the root of
  \<open>t\<close>: parent consistency), and its \<open>left\<close> and \<open>right\<close> fields are the roots of
  its subtrees.
\<close>

datatype 'a ptree = Tip | Fork "'a ptree" addr 'a "'a ptree"

fun shape :: "('a \<Rightarrow> 'a \<Rightarrow> bool) \<Rightarrow> 'a heap \<Rightarrow> addr option \<Rightarrow> addr option \<Rightarrow> 'a ptree \<Rightarrow> bool" where
  "shape lt h p par Tip = (p = None)"
| "shape lt h p par (Fork l a v r) =
     (p = Some a \<and> val (h a) = v \<and> lessFn (h a) = lt \<and> parent (h a) = par \<and>
      shape lt h (left (h a)) (Some a) l \<and> shape lt h (right (h a)) (Some a) r)"

fun addrs :: "'a ptree \<Rightarrow> addr list" where
  "addrs Tip = []"
| "addrs (Fork l a v r) = addrs l @ a # addrs r"

fun inorder :: "'a ptree \<Rightarrow> 'a list" where
  "inorder Tip = []"
| "inorder (Fork l a v r) = inorder l @ v # inorder r"

fun oroot :: "'a ptree \<Rightarrow> addr option" where
  "oroot Tip = None"
| "oroot (Fork l a v r) = Some a"

text \<open>The BST property: left of a node all strictly less, right all strictly greater.\<close>

fun bst :: "('a \<Rightarrow> 'a \<Rightarrow> bool) \<Rightarrow> 'a ptree \<Rightarrow> bool" where
  "bst lt Tip = True"
| "bst lt (Fork l a v r) =
     (list_all (\<lambda>x. lt x v) (inorder l) \<and> list_all (\<lambda>x. lt v x) (inorder r) \<and> bst lt l \<and> bst lt r)"

fun height :: "'a ptree \<Rightarrow> int" where
  "height Tip = 0"
| "height (Fork l a v r) = 1 + max (height l) (height r)"

text \<open>Comparator equality: neither is less than the other.\<close>

definition eqv :: "('a \<Rightarrow> 'a \<Rightarrow> bool) \<Rightarrow> 'a \<Rightarrow> 'a \<Rightarrow> bool" where
  "eqv lt a b = (\<not> lt a b \<and> \<not> lt b a)"

text \<open>
  The three invariants of a tree: BST property, parent consistency (with
  \<open>root.parent == nil\<close>) and \<open>size\<close> the number of nodes reachable from \<open>root\<close>;
  together with what allocation gives: the nodes are pairwise different cells below
  \<open>fresh\<close>, and they carry the tree's comparator.
\<close>

definition invariants :: "('a \<Rightarrow> 'a \<Rightarrow> bool) \<Rightarrow> 'a State \<Rightarrow> 'a ptree \<Rightarrow> bool" where
  "invariants lt t p =
     (bst lt p \<and> shape lt (heap t) (root t) None p \<and> size' t = int (length (addrs p)) \<and>
      distinct (addrs p) \<and> list_all (\<lambda>a. a < fresh t) (addrs p) \<and> lessFn' t = lt)"

section \<open>What the operations compute, on the tree\<close>

text \<open>
  The descent of \<open>Insert\<close> and of \<open>Find\<close>, the tree after an insertion at the
  fresh address \<open>z\<close>, and the tree after the removal of the node at address \<open>n\<close>,
  written as functions on the tree that the store holds. The theorems below show that
  the operations on the store compute them.
\<close>

fun descend :: "('a \<Rightarrow> 'a \<Rightarrow> bool) \<Rightarrow> 'a \<Rightarrow> addr option \<Rightarrow> 'a ptree \<Rightarrow> addr option \<times> addr option" where
  "descend lt v n Tip = (n, None)"
| "descend lt v n (Fork l a x r) =
     (if lt v x then descend lt v (Some a) l
      else if lt x v then descend lt v (Some a) r
      else (Some a, Some a))"

fun lookup :: "('a \<Rightarrow> 'a \<Rightarrow> bool) \<Rightarrow> 'a \<Rightarrow> 'a ptree \<Rightarrow> addr option" where
  "lookup lt v Tip = None"
| "lookup lt v (Fork l a x r) =
     (if lt v x then lookup lt v l else if lt x v then lookup lt v r else Some a)"

fun ins :: "('a \<Rightarrow> 'a \<Rightarrow> bool) \<Rightarrow> 'a \<Rightarrow> addr \<Rightarrow> 'a ptree \<Rightarrow> 'a ptree" where
  "ins lt v z Tip = Fork Tip z v Tip"
| "ins lt v z (Fork l a x r) =
     (if lt v x then Fork (ins lt v z l) a x r
      else if lt x v then Fork l a x (ins lt v z r)
      else Fork l a x r)"

text \<open>\<open>take_min l a x r\<close>: the leftmost node of \<open>Fork l a x r\<close> and the tree without it.\<close>

fun take_min :: "'a ptree \<Rightarrow> addr \<Rightarrow> 'a \<Rightarrow> 'a ptree \<Rightarrow> addr \<times> 'a \<times> 'a ptree" where
  "take_min Tip a x r = (a, x, r)"
| "take_min (Fork ll b y lr) a x r =
     (case take_min ll b y lr of (s, sv, l') \<Rightarrow> (s, sv, Fork l' a x r))"

fun join :: "'a ptree \<Rightarrow> 'a ptree \<Rightarrow> 'a ptree" where
  "join Tip r = r"
| "join (Fork ll a x lr) Tip = Fork ll a x lr"
| "join (Fork ll a x lr) (Fork rl b y rr) =
     (case take_min rl b y rr of (s, sv, r') \<Rightarrow> Fork (Fork ll a x lr) s sv r')"

fun remove :: "addr \<Rightarrow> 'a ptree \<Rightarrow> 'a ptree" where
  "remove n Tip = Tip"
| "remove n (Fork l a x r) = (if n = a then join l r else Fork (remove n l) a x (remove n r))"

text \<open>The format of \<open>String\<close> as the specification words it: the items, one space between.\<close>

fun spaced :: "string list \<Rightarrow> string" where
  "spaced [] = []"
| "spaced [x] = x"
| "spaced (x # y # ys) = x @ '' '' @ spaced (y # ys)"

text \<open>A store of integer nodes to run the operations in, and a rendering of small numbers.\<close>

definition store0 :: "int heap" where
  "store0 = (\<lambda>_. \<lparr>val = 0, parent = None, left = None, right = None, lessFn = (<)\<rparr>)"

definition digit :: "int \<Rightarrow> string" where
  "digit i =
     (if i = 1 then ''1'' else if i = 2 then ''2'' else if i = 3 then ''3''
      else if i = 4 then ''4'' else if i = 5 then ''5'' else if i = 6 then ''6''
      else if i = 7 then ''7'' else if i = 8 then ''8'' else if i = 9 then ''9'' else ''0'')"

text \<open>A tree that is a chain of right children, and one of left children.\<close>

fun rchain :: "'a ptree \<Rightarrow> bool" where
  "rchain Tip = True"
| "rchain (Fork l a x r) = (l = Tip \<and> rchain r)"

fun lchain :: "'a ptree \<Rightarrow> bool" where
  "lchain Tip = True"
| "lchain (Fork l a x r) = (r = Tip \<and> lchain l)"

text \<open>
  A tree of six integers, as \<open>Init\<close> builds it from \<open>5, 2, 8, 6, 9, 7\<close>: the root 5
  has two children, and its successor 6 lies below its right child 8 and has a right
  child of its own.
\<close>

definition demo_heap :: "int heap" where
  "demo_heap = store0
     (0 := \<lparr>val = 5, parent = None, left = Some 1, right = Some 2, lessFn = (<)\<rparr>,
      1 := \<lparr>val = 2, parent = Some 0, left = None, right = None, lessFn = (<)\<rparr>,
      2 := \<lparr>val = 8, parent = Some 0, left = Some 3, right = Some 4, lessFn = (<)\<rparr>,
      3 := \<lparr>val = 6, parent = Some 2, left = None, right = Some 5, lessFn = (<)\<rparr>,
      4 := \<lparr>val = 9, parent = Some 2, left = None, right = None, lessFn = (<)\<rparr>,
      5 := \<lparr>val = 7, parent = Some 3, left = None, right = None, lessFn = (<)\<rparr>)"

definition demo :: "int State" where
  "demo = \<lparr>root = Some 0, size' = 6, lessFn' = (<), heap = demo_heap, fresh = 6\<rparr>"

definition demo_tree :: "int ptree" where
  "demo_tree =
     Fork (Fork Tip 1 2 Tip) 0 5
          (Fork (Fork Tip 3 6 (Fork Tip 5 7 Tip)) 2 8 (Fork Tip 4 9 Tip))"

text \<open>The tree after \<open>Init\<close>: one insertion per element, a new address for each new node.\<close>

fun ins_list :: "('a \<Rightarrow> 'a \<Rightarrow> bool) \<Rightarrow> 'a list \<Rightarrow> addr \<Rightarrow> 'a ptree \<Rightarrow> 'a ptree" where
  "ins_list lt [] z t = t"
| "ins_list lt (v # vs) z t =
     (if lookup lt v t = None then ins_list lt vs (Suc z) (ins lt v z t)
      else ins_list lt vs z t)"

text \<open>
  The traversal \<open>for n != nil { visit n; n = n.Next() }\<close> and the one with
  \<open>Prev\<close>: the list of the nodes visited, in the order of the visits.
\<close>

partial_function (option) iter_Next :: "'a heap \<Rightarrow> addr option \<Rightarrow> addr list result option" where
  "iter_Next h n =
     (case n of None \<Rightarrow> Some (Inr [])
      | Some a \<Rightarrow>
          Option.bind (Next h (Some a)) (\<lambda>r.
            case r of
              Inl e \<Rightarrow> Some (Inl e)
            | Inr m \<Rightarrow> Option.bind (iter_Next h m) (\<lambda>rest. Some (map_sum id ((#) a) rest))))"

partial_function (option) iter_Prev :: "'a heap \<Rightarrow> addr option \<Rightarrow> addr list result option" where
  "iter_Prev h n =
     (case n of None \<Rightarrow> Some (Inr [])
      | Some a \<Rightarrow>
          Option.bind (Prev h (Some a)) (\<lambda>r.
            case r of
              Inl e \<Rightarrow> Some (Inl e)
            | Inr m \<Rightarrow> Option.bind (iter_Prev h m) (\<lambda>rest. Some (map_sum id ((#) a) rest))))"

text \<open>\<open>follows step xs e\<close>: \<open>step\<close> leads from each element of \<open>xs\<close> to the next one, and from the last to \<open>e\<close>.\<close>

fun follows :: "(addr \<Rightarrow> addr option result option) \<Rightarrow> addr list \<Rightarrow> addr option \<Rightarrow> bool" where
  "follows step [] e = True"
| "follows step [x] e = (step x = Some (Inr e))"
| "follows step (x # y # ys) e = (step x = Some (Inr (Some y)) \<and> follows step (y # ys) e)"

text \<open>
  The indices \<open>RandInit\<close> picks, in the order of its insertions: at step \<open>i\<close> the
  index at position \<open>rnd i\<close>, which is then swapped to position \<open>i\<close>.
\<close>

fun draw_order :: "(nat \<Rightarrow> nat) \<Rightarrow> nat \<Rightarrow> nat list \<Rightarrow> nat list" where
  "draw_order rnd 0 idx = []"
| "draw_order rnd (Suc i) idx =
     idx ! rnd i # draw_order rnd i (idx[rnd i := idx ! i, i := idx ! rnd i])"

text \<open>
  Sequences of mutating operations on a tree. A run stops at the first panic.
  \<open>draws_ok\<close>: the draws of a \<open>RandInit\<close> are what \<open>rand.Intn(i + 1)\<close> can return.
\<close>

datatype 'a operation =
  OpInsert 'a | OpDelete 'a | OpInit "'a list" | OpRandInit "nat \<Rightarrow> nat" "'a list"

fun apply_op :: "'a State \<Rightarrow> 'a operation \<Rightarrow> 'a State result option" where
  "apply_op T (OpInsert v) = map_option (\<lambda>(z, T'). Inr T') (Insert T v)"
| "apply_op T (OpDelete v) = map_option (map_sum id snd) (Delete T v)"
| "apply_op T (OpInit vs) = map_option Inr (Init T vs)"
| "apply_op T (OpRandInit rnd vs) = RandInit rnd T vs"

fun run :: "'a State \<Rightarrow> 'a operation list \<Rightarrow> 'a State result option" where
  "run T [] = Some (Inr T)"
| "run T (x # xs) =
     Option.bind (apply_op T x) (\<lambda>r. case r of Inl e \<Rightarrow> Some (Inl e) | Inr T' \<Rightarrow> run T' xs)"

fun draws_ok :: "'a operation \<Rightarrow> bool" where
  "draws_ok (OpRandInit rnd vs) = list_all (\<lambda>i. rnd i \<le> i) [0..<length vs]"
| "draws_ok _ = True"

section \<open>Read-only traversals of a well-linked tree\<close>

lemma walk_shape:
  "shape lt h p par t \<Longrightarrow>
   walk fmt h p buf = Some (buf @ concat (map (\<lambda>v. fmt v @ '' '') (inorder t)))"
proof (induction t arbitrary: p par buf)
  case Tip
  then show ?case by (simp add: walk.simps)
next
  case (Fork l a v r)
  from Fork.prems have p: "p = Some a" "val (h a) = v"
    and l: "shape lt h (left (h a)) (Some a) l" and r: "shape lt h (right (h a)) (Some a) r"
    by simp_all
  show ?case
    by (subst walk.simps) (simp add: p Fork.IH(1)[OF l] Fork.IH(2)[OF r])
qed

lemma Height_shape: "shape lt h p par t \<Longrightarrow> Node_Height h p = Some (height t)"
proof (induction t arbitrary: p par)
  case Tip
  then show ?case by (simp add: Node_Height.simps)
next
  case (Fork l a v r)
  from Fork.prems have p: "p = Some a"
    and l: "shape lt h (left (h a)) (Some a) l" and r: "shape lt h (right (h a)) (Some a) r"
    by simp_all
  show ?case
    by (subst Node_Height.simps) (simp add: p Fork.IH(1)[OF l] Fork.IH(2)[OF r] maxInt_def max_def)
qed

lemma concat_spaced:
  "xs \<noteq> [] \<Longrightarrow> concat (map (\<lambda>v. fmt v @ '' '') xs) = spaced (map fmt xs) @ '' ''"
  by (induction xs rule: induct_list012) simp_all

lemma Truncate_last: "Truncate (int (length (xs @ [c])) - 1) (xs @ [c]) = Inr xs"
  by (simp add: Truncate_def)

lemma inorder_Nil_iff: "inorder t = [] \<longleftrightarrow> t = Tip"
  by (cases t) simp_all

lemma shape_None: "shape lt h None par t \<longleftrightarrow> t = Tip"
  by (cases t) simp_all

lemma String_shape:
  assumes "shape lt h p par t"
  shows "Node_String fmt h p = Some (Inr (''['' @ spaced (map fmt (inorder t)) @ '']''))"
proof (cases t)
  case Tip
  with assms show ?thesis by (simp add: Node_String_def)
next
  case (Fork l a v r)
  with assms have p: "p = Some a" and ne: "inorder t \<noteq> []" by simp_all
  have w: "walk fmt h (Some a) ''['' = Some (''['' @ spaced (map fmt (inorder t)) @ '' '')"
    using walk_shape[OF assms, of fmt "''[''"] concat_spaced[OF ne, of fmt] by (simp add: p)
  have T: "Truncate (int (length (''['' @ spaced (map fmt (inorder t)) @ '' '')) - 1)
             (''['' @ spaced (map fmt (inorder t)) @ '' '')
           = Inr (''['' @ spaced (map fmt (inorder t)))"
    using Truncate_last[of "''['' @ spaced (map fmt (inorder t))" "CHR '' ''"] by simp
  show ?thesis
    unfolding Node_String_def p by (simp only: option.case w bind.simps T sum.case append_assoc)
qed

section \<open>Insertion\<close>

lemma shape_cong:
  "shape lt h p par t \<Longrightarrow> (\<And>a. a \<in> set (addrs t) \<Longrightarrow> h' a = h a) \<Longrightarrow> shape lt h' p par t"
  by (induction t arbitrary: p par) auto

lemma Insert_loop_shape:
  "shape lt h x par t \<Longrightarrow> Insert_loop lt h v n x = Some (descend lt v n t)"
proof (induction t arbitrary: x par n)
  case Tip
  then show ?case by (simp add: Insert_loop.simps)
next
  case (Fork l a y r)
  from Fork.prems have p: "x = Some a" "val (h a) = y"
    and l: "shape lt h (left (h a)) (Some a) l" and r: "shape lt h (right (h a)) (Some a) r"
    by simp_all
  show ?case
    by (subst Insert_loop.simps) (simp add: p Fork.IH(1)[OF l] Fork.IH(2)[OF r])
qed

lemma Find_shape:
  "shape lt h p par t \<Longrightarrow> Node_Find h p v = Some (lookup lt v t)"
proof (induction t arbitrary: p par)
  case Tip
  then show ?case by (simp add: Node_Find.simps)
next
  case (Fork l a y r)
  from Fork.prems have p: "p = Some a" "val (h a) = y" "lessFn (h a) = lt"
    and l: "shape lt h (left (h a)) (Some a) l" and r: "shape lt h (right (h a)) (Some a) r"
    by simp_all
  show ?case
    by (subst Node_Find.simps) (simp add: p Fork.IH(1)[OF l] Fork.IH(2)[OF r])
qed

lemma snd_descend: "snd (descend lt v n t) = lookup lt v t"
  by (induction t arbitrary: n) auto

lemma fst_descend_in:
  "t \<noteq> Tip \<Longrightarrow> fst (descend lt v n t) = Some a \<Longrightarrow> a \<in> set (addrs t)"
proof (induction t arbitrary: n)
  case Tip
  then show ?case by simp
next
  case (Fork l b y r)
  then show ?case
    by (cases "l = Tip"; cases "r = Tip") (auto split: if_splits)
qed

lemma fst_descend_some: "t \<noteq> Tip \<Longrightarrow> \<exists>a. fst (descend lt v n t) = Some a"
proof (induction t arbitrary: n)
  case Tip
  then show ?case by simp
next
  case (Fork l b y r)
  then show ?case
    by (cases "l = Tip"; cases "r = Tip") (auto split: if_splits)
qed

lemma ins_shape:
  assumes "shape lt h x par t" "distinct (addrs t)" "z \<notin> set (addrs t)" "t \<noteq> Tip"
    "descend lt v n t = (Some a, None)"
    "h' = h(z := \<lparr>val = v, parent = Some a, left = None, right = None, lessFn = lt\<rparr>)"
    "h'' = (if lt v (val (h' a)) then h'(a := (h' a)\<lparr>left := Some z\<rparr>)
            else h'(a := (h' a)\<lparr>right := Some z\<rparr>))"
  shows "shape lt h'' x par (ins lt v z t)"
  using assms(1-5)
proof (induction t arbitrary: x par n)
  case Tip
  then show ?case by simp
next
  case (Fork l b y r)
  from Fork.prems have p: "x = Some b" "val (h b) = y" "lessFn (h b) = lt" "parent (h b) = par"
    and l: "shape lt h (left (h b)) (Some b) l" and r: "shape lt h (right (h b)) (Some b) r"
    and d: "distinct (addrs l)" "distinct (addrs r)" "b \<notin> set (addrs l)" "b \<notin> set (addrs r)"
      "set (addrs l) \<inter> set (addrs r) = {}"
    and z: "z \<noteq> b" "z \<notin> set (addrs l)" "z \<notin> set (addrs r)"
    by auto
  have found: "lt v y \<or> lt y v" using Fork.prems(5) by (auto split: if_splits)
  show ?case
  proof (cases "lt v y")
    case True
    then have desc: "descend lt v (Some b) l = (Some a, None)" using Fork.prems(5) by simp
    show ?thesis
    proof (cases "l = Tip")
      case True
      with desc have ab: "a = b" by simp
      have "shape lt h'' (right (h b)) (Some b) r"
        using r z d by (intro shape_cong[OF r]) (auto simp: assms(6,7) ab)
      moreover have "h'' b = (h b)\<lparr>left := Some z\<rparr>"
        "h'' z = \<lparr>val = v, parent = Some b, left = None, right = None, lessFn = lt\<rparr>"
        using z p \<open>lt v y\<close> by (auto simp: assms(6,7) ab)
      ultimately show ?thesis using \<open>lt v y\<close> True p z l
        by simp
    next
      case False
      from fst_descend_in[OF False, of lt v "Some b" a] desc have al: "a \<in> set (addrs l)" by simp
      have hb: "h'' b = h b" using al d z by (auto simp: assms(6,7))
      have "shape lt h'' (right (h b)) (Some b) r"
        using al z d by (intro shape_cong[OF r]) (auto simp: assms(6,7))
      moreover have "shape lt h'' (left (h b)) (Some b) (ins lt v z l)"
        using Fork.IH(1)[OF l d(1) z(2) False desc] .
      ultimately show ?thesis using \<open>lt v y\<close> p by (simp add: hb)
    qed
  next
    case nlt: False
    with found have gt: "lt y v" by simp
    then have desc: "descend lt v (Some b) r = (Some a, None)" using Fork.prems(5) nlt by simp
    show ?thesis
    proof (cases "r = Tip")
      case True
      with desc have ab: "a = b" by simp
      have "shape lt h'' (left (h b)) (Some b) l"
        using z d by (intro shape_cong[OF l]) (auto simp: assms(6,7) ab)
      moreover have "h'' b = (h b)\<lparr>right := Some z\<rparr>"
        "h'' z = \<lparr>val = v, parent = Some b, left = None, right = None, lessFn = lt\<rparr>"
        using z p nlt by (auto simp: assms(6,7) ab)
      ultimately show ?thesis using nlt gt True p z r
        by simp
    next
      case False
      from fst_descend_in[OF False, of lt v "Some b" a] desc have al: "a \<in> set (addrs r)" by simp
      have hb: "h'' b = h b" using al d z by (auto simp: assms(6,7))
      have "shape lt h'' (left (h b)) (Some b) l"
        using al z d by (intro shape_cong[OF l]) (auto simp: assms(6,7))
      moreover have "shape lt h'' (right (h b)) (Some b) (ins lt v z r)"
        using Fork.IH(2)[OF r d(2) z(3) False desc] .
      ultimately show ?thesis using nlt gt p by (simp add: hb)
    qed
  qed
qed


lemma shape_oroot: "shape lt h p par t \<Longrightarrow> p = oroot t"
  by (cases t) simp_all

lemma ins_found: "lookup lt v t \<noteq> None \<Longrightarrow> ins lt v z t = t"
  by (induction t) auto

lemma set_addrs_ins:
  "lookup lt v t = None \<Longrightarrow> set (addrs (ins lt v z t)) = insert z (set (addrs t))"
  by (induction t) (auto split: if_splits)

lemma length_addrs_ins:
  "lookup lt v t = None \<Longrightarrow> length (addrs (ins lt v z t)) = Suc (length (addrs t))"
  by (induction t) (auto split: if_splits)

lemma distinct_addrs_ins:
  "lookup lt v t = None \<Longrightarrow> distinct (addrs t) \<Longrightarrow> z \<notin> set (addrs t) \<Longrightarrow>
   distinct (addrs (ins lt v z t))"
  by (induction t) (auto split: if_splits simp: set_addrs_ins)

lemma set_inorder_ins: "set (inorder (ins lt v z t)) \<subseteq> insert v (set (inorder t))"
  by (induction t) auto

lemma set_inorder_ins_absent:
  "lookup lt v t = None \<Longrightarrow> set (inorder (ins lt v z t)) = insert v (set (inorder t))"
  by (induction t) (auto split: if_splits)

lemma bst_ins: "bst lt t \<Longrightarrow> bst lt (ins lt v z t)"
proof (induction t)
  case Tip
  then show ?case by simp
next
  case (Fork l a x r)
  then show ?case
    using set_inorder_ins[of lt v z l] set_inorder_ins[of lt v z r]
    by (auto simp: list_all_iff)
qed

lemma descend_childless:
  "shape lt h x par t \<Longrightarrow> t \<noteq> Tip \<Longrightarrow> descend lt v n t = (Some a, None) \<Longrightarrow>
   (if lt v (val (h a)) then left (h a) = None else right (h a) = None)"
proof (induction t arbitrary: x par n)
  case Tip
  then show ?case by simp
next
  case (Fork l b y r)
  from Fork.prems have p: "val (h b) = y"
    and l: "shape lt h (left (h b)) (Some b) l" and r: "shape lt h (right (h b)) (Some b) r"
    by simp_all
  show ?case
  proof (cases "lt v y")
    case True
    then have desc: "descend lt v (Some b) l = (Some a, None)" using Fork.prems(3) by simp
    show ?thesis
    proof (cases "l = Tip")
      case True
      then show ?thesis using desc l p \<open>lt v y\<close> by simp
    next
      case False
      then show ?thesis using Fork.IH(1)[OF l False desc] by simp
    qed
  next
    case False
    then have gt: "lt y v" and desc: "descend lt v (Some b) r = (Some a, None)"
      using Fork.prems(3) by (auto split: if_splits)
    show ?thesis
    proof (cases "r = Tip")
      case True
      then show ?thesis using desc r p False by simp
    next
      case nt: False
      then show ?thesis using Fork.IH(2)[OF r nt desc] by simp
    qed
  qed
qed

lemma Insert_found:
  assumes "shape lt (heap T) (root T) None t" "lessFn' T = lt" "lookup lt v t = Some a"
  shows "Insert T v = Some (a, T)"
  using Insert_loop_shape[OF assms(1), of v None] snd_descend[of lt v None t] assms(2,3)
  by (cases "descend lt v None t") (simp add: Insert_def)

lemma Insert_absent:
  assumes inv: "invariants lt T t" and nf: "lookup lt v t = None"
  shows "\<exists>T'. Insert T v = Some (fresh T, T') \<and> invariants lt T' (ins lt v (fresh T) t) \<and>
     size' T' = size' T + 1 \<and> fresh T' = Suc (fresh T) \<and>
     heap T' (fresh T) = \<lparr>val = v, parent = fst (descend lt v None t), left = None, right = None, lessFn = lt\<rparr> \<and>
     (\<forall>b. b \<noteq> fresh T \<longrightarrow> fst (descend lt v None t) \<noteq> Some b \<longrightarrow> heap T' b = heap T b) \<and>
     (case fst (descend lt v None t) of
        None \<Rightarrow> root T = None \<and> root T' = Some (fresh T)
      | Some a \<Rightarrow> root T' = root T \<and> a \<in> set (addrs t) \<and>
          (if lt v (val (heap T a))
           then left (heap T a) = None \<and> heap T' a = (heap T a)\<lparr>left := Some (fresh T)\<rparr>
           else right (heap T a) = None \<and> heap T' a = (heap T a)\<lparr>right := Some (fresh T)\<rparr>))"
proof -
  let ?h = "heap T" and ?z = "fresh T"
  from inv have sh: "shape lt ?h (root T) None t" and b: "bst lt t"
    and sz: "size' T = int (length (addrs t))" and d: "distinct (addrs t)"
    and fr: "\<forall>a\<in>set (addrs t). a < ?z" and lf: "lessFn' T = lt"
    by (simp_all add: invariants_def list_all_iff)
  have z: "?z \<notin> set (addrs t)" using fr by auto
  have loop: "Insert_loop lt ?h v None (root T) = Some (descend lt v None t)"
    by (rule Insert_loop_shape[OF sh])
  have sn: "snd (descend lt v None t) = None" using nf by (simp add: snd_descend)
  show ?thesis
  proof (cases t)
    case Tip
    with sh have rt: "root T = None" by simp
    show ?thesis using loop rt lf sz
      by (simp add: Tip Insert_def invariants_def Let_def)
  next
    case (Fork l a0 x0 r)
    then have ne: "t \<noteq> Tip" by simp
    from fst_descend_some[OF ne, of lt v None] obtain a where fa: "fst (descend lt v None t) = Some a"
      by blast
    with sn have desc: "descend lt v None t = (Some a, None)" by (metis prod.collapse)
    have at: "a \<in> set (addrs t)" by (rule fst_descend_in[OF ne fa])
    have az: "a \<noteq> ?z" using at z by auto
    define h' where "h' = ?h(?z := \<lparr>val = v, parent = Some a, left = None, right = None, lessFn = lt\<rparr>)"
    define h'' where "h'' = (if lt v (val (h' a)) then h'(a := (h' a)\<lparr>left := Some ?z\<rparr>)
            else h'(a := (h' a)\<lparr>right := Some ?z\<rparr>))"
    have sh'': "shape lt h'' (root T) None (ins lt v ?z t)"
      by (rule ins_shape[OF sh d z ne desc h'_def h''_def])
    define T' where "T' = T\<lparr>heap := h'', size' := size' T + 1, fresh := Suc ?z\<rparr>"
    have ins: "Insert T v = Some (?z, T')"
      using loop desc lf by (simp add: Insert_def Let_def T'_def h''_def h'_def)
    have inv': "invariants lt T' (ins lt v ?z t)"
      using sh'' bst_ins[OF b] length_addrs_ins[OF nf] distinct_addrs_ins[OF nf d z]
        set_addrs_ins[OF nf, of ?z] fr lf sz
      by (auto simp: invariants_def T'_def list_all_iff)
    have childless: "if lt v (val (?h a)) then left (?h a) = None else right (?h a) = None"
      by (rule descend_childless[OF sh ne desc])
    show ?thesis
      using ins inv' at az childless
      by (intro exI[of _ T']) (auto simp: fa T'_def h''_def h'_def)
  qed
qed


lemma map_val_addrs: "shape lt h p par t \<Longrightarrow> map (\<lambda>a. val (h a)) (addrs t) = inorder t"
  by (induction t arbitrary: p par) auto

lemma val_in_inorder:
  "shape lt h p par t \<Longrightarrow> a \<in> set (addrs t) \<Longrightarrow> val (h a) \<in> set (inorder t)"
  by (induction t arbitrary: p par) auto

lemma lookup_sound:
  "shape lt h p par t \<Longrightarrow> lookup lt v t = Some a \<Longrightarrow>
   a \<in> set (addrs t) \<and> eqv lt v (val (h a))"
  by (induction t arbitrary: p par) (auto simp: eqv_def split: if_splits)

lemma lookup_complete:
  assumes "transp lt"
  shows "bst lt t \<Longrightarrow> x \<in> set (inorder t) \<Longrightarrow> eqv lt v x \<Longrightarrow> lookup lt v t \<noteq> None"
proof (induction t)
  case Tip
  then show ?case by simp
next
  case (Fork l a y r)
  from Fork.prems(1) have L: "\<forall>u\<in>set (inorder l). lt u y" and R: "\<forall>u\<in>set (inorder r). lt y u"
    and bl: "bst lt l" and br: "bst lt r" by (simp_all add: list_all_iff)
  show ?case
  proof (cases "lt v y")
    case True
    have "x \<in> set (inorder l)"
    proof (rule ccontr)
      assume "x \<notin> set (inorder l)"
      with Fork.prems(2) have "x = y \<or> x \<in> set (inorder r)" by auto
      then have "lt v x" using True R transpD[OF assms] by blast
      with Fork.prems(3) show False by (simp add: eqv_def)
    qed
    then show ?thesis using Fork.IH(1)[OF bl _ Fork.prems(3)] True by simp
  next
    case False
    show ?thesis
    proof (cases "lt y v")
      case True
      have "x \<in> set (inorder r)"
      proof (rule ccontr)
        assume "x \<notin> set (inorder r)"
        with Fork.prems(2) have "x = y \<or> x \<in> set (inorder l)" by auto
        then have "lt x v" using True L transpD[OF assms] by blast
        with Fork.prems(3) show False by (simp add: eqv_def)
      qed
      then show ?thesis using Fork.IH(2)[OF br _ Fork.prems(3)] True False by simp
    next
      case False
      then show ?thesis using \<open>\<not> lt v y\<close> by simp
    qed
  qed
qed

section \<open>Initialisation\<close>

lemma Insert_inv:
  assumes "invariants lt T t"
  shows "\<exists>a T'. Insert T v = Some (a, T') \<and> invariants lt T' (ins lt v (fresh T) t) \<and>
           fresh T' = (if lookup lt v t = None then Suc (fresh T) else fresh T)"
proof (cases "lookup lt v t")
  case None
  from Insert_absent[OF assms None] show ?thesis using None by auto
next
  case (Some a)
  from assms have "shape lt (heap T) (root T) None t" "lessFn' T = lt"
    by (simp_all add: invariants_def)
  from Insert_found[OF this Some] show ?thesis using Some assms ins_found[of lt v t "fresh T"]
    by simp
qed

lemma Init_inv:
  "invariants lt T t \<Longrightarrow>
   \<exists>T'. Init T vs = Some T' \<and> invariants lt T' (ins_list lt vs (fresh T) t)"
proof (induction vs arbitrary: T t)
  case Nil
  then show ?case by simp
next
  case (Cons v vs)
  from Insert_inv[OF Cons.prems, of v] obtain a T1 where
    i: "Insert T v = Some (a, T1)" and inv1: "invariants lt T1 (ins lt v (fresh T) t)"
    and f: "fresh T1 = (if lookup lt v t = None then Suc (fresh T) else fresh T)"
    by blast
  from Cons.IH[OF inv1] obtain T' where
    "Init T1 vs = Some T'" "invariants lt T' (ins_list lt vs (fresh T1) (ins lt v (fresh T) t))"
    by blast
  then show ?case using i f ins_found[of lt v t "fresh T"] by (auto split: if_splits)
qed

lemma New_invariants: "invariants lt (New lt h f) Tip"
  by (simp add: invariants_def New_def)

lemma rchain_height: "rchain t \<Longrightarrow> height t = int (length (inorder t))"
  by (induction t) auto

lemma rchain_ins:
  "rchain t \<Longrightarrow> \<forall>x\<in>set (inorder t). lt x v \<and> \<not> lt v x \<Longrightarrow>
   rchain (ins lt v z t) \<and> inorder (ins lt v z t) = inorder t @ [v] \<and> lookup lt v t = None"
  by (induction t) auto

lemma rchain_ins_list:
  assumes asym: "asymp lt"
  shows "rchain t \<Longrightarrow> sorted_wrt lt (inorder t @ vs) \<Longrightarrow>
   rchain (ins_list lt vs z t) \<and> inorder (ins_list lt vs z t) = inorder t @ vs"
proof (induction vs arbitrary: t z)
  case Nil
  then show ?case by simp
next
  case (Cons v vs)
  from Cons.prems(2) have below: "\<forall>x\<in>set (inorder t). lt x v \<and> \<not> lt v x"
    using asympD[OF asym] by (auto simp: sorted_wrt_append)
  from rchain_ins[OF Cons.prems(1) below, of z]
  have r: "rchain (ins lt v z t)" and i: "inorder (ins lt v z t) = inorder t @ [v]"
    and n: "lookup lt v t = None" by simp_all
  from Cons.prems(2) have "sorted_wrt lt (inorder (ins lt v z t) @ vs)" by (simp add: i)
  from Cons.IH[OF r this, of "Suc z"] show ?case using n i by simp
qed

lemma lchain_height: "lchain t \<Longrightarrow> height t = int (length (inorder t))"
  by (induction t) auto

lemma lchain_ins:
  "lchain t \<Longrightarrow> \<forall>x\<in>set (inorder t). lt v x \<Longrightarrow>
   lchain (ins lt v z t) \<and> inorder (ins lt v z t) = v # inorder t \<and> lookup lt v t = None"
  by (induction t) auto

lemma lchain_ins_list:
  "lchain t \<Longrightarrow> sorted_wrt (\<lambda>x y. lt y x) (rev (inorder t) @ vs) \<Longrightarrow>
   lchain (ins_list lt vs z t) \<and> inorder (ins_list lt vs z t) = rev vs @ inorder t"
proof (induction vs arbitrary: t z)
  case Nil
  then show ?case by simp
next
  case (Cons v vs)
  from Cons.prems(2) have above: "\<forall>x\<in>set (inorder t). lt v x"
    by (auto simp: sorted_wrt_append)
  from lchain_ins[where lt = lt and v = v and z = z, OF Cons.prems(1) above]
  have r: "lchain (ins lt v z t)" and i: "inorder (ins lt v z t) = v # inorder t"
    and n: "lookup lt v t = None" by simp_all
  from Cons.prems(2) have "sorted_wrt (\<lambda>x y. lt y x) (rev (inorder (ins lt v z t)) @ vs)"
    by (simp add: i)
  from Cons.IH[OF r this, of "Suc z"] show ?case using n i by simp
qed

section \<open>Successor and predecessor\<close>

lemma distinct_inorder:
  assumes "asymp lt"
  shows "bst lt t \<Longrightarrow> distinct (inorder t)"
  using asympD[OF assms] by (induction t) (auto simp: list_all_iff)

lemma distinct_addrs:
  assumes "shape lt h p par t" "bst lt t" "asymp lt"
  shows "distinct (addrs t)"
  using distinct_inorder[OF assms(3,2)] map_val_addrs[OF assms(1)]
  by (metis distinct_map)

lemma sorted_inorder:
  assumes "transp lt"
  shows "bst lt t \<Longrightarrow> sorted_wrt lt (inorder t)"
  using transpD[OF assms] by (induction t) (auto simp: list_all_iff sorted_wrt_append)

lemma addrs_Nil_iff: "addrs t = [] \<longleftrightarrow> t = Tip"
  by (cases t) simp_all

lemma Min_loop_shape:
  "shape lt h (Some a) par t \<Longrightarrow> Min_loop h a = Some (hd (addrs t))"
proof (induction t arbitrary: a par)
  case Tip
  then show ?case by simp
next
  case (Fork l b x r)
  from Fork.prems have ab: "a = b" and l: "shape lt h (left (h b)) (Some b) l" by simp_all
  show ?case
  proof (cases l)
    case Tip
    with l show ?thesis by (subst Min_loop.simps) (simp add: ab)
  next
    case (Fork ll c y lr)
    with l have lc: "left (h b) = Some c" by simp
    from Fork.IH(1)[of c "Some b"] l lc have "Min_loop h c = Some (hd (addrs l))" by simp
    moreover have "addrs l \<noteq> []" by (simp add: Fork)
    ultimately show ?thesis by (subst Min_loop.simps) (simp add: ab lc)
  qed
qed

lemma Max_loop_shape:
  "shape lt h (Some a) par t \<Longrightarrow> Max_loop h a = Some (last (addrs t))"
proof (induction t arbitrary: a par)
  case Tip
  then show ?case by simp
next
  case (Fork l b x r)
  from Fork.prems have ab: "a = b" and r: "shape lt h (right (h b)) (Some b) r" by simp_all
  show ?case
  proof (cases r)
    case Tip
    with r show ?thesis by (subst Max_loop.simps) (simp add: ab)
  next
    case (Fork rl c y rr)
    with r have rc: "right (h b) = Some c" by simp
    from Fork.IH(2)[of c "Some b"] r rc have "Max_loop h c = Some (last (addrs r))" by simp
    moreover have "addrs r \<noteq> []" by (simp add: Fork)
    ultimately show ?thesis by (subst Max_loop.simps) (simp add: ab rc)
  qed
qed

lemma follows_append:
  "follows step xs (Some a) \<Longrightarrow> follows step (a # ys) e \<Longrightarrow> follows step (xs @ a # ys) e"
  by (induction xs rule: induct_list012) simp_all

lemma follows_Cons:
  "ys \<noteq> [] \<Longrightarrow> step x = Some (Inr (Some (hd ys))) \<Longrightarrow> follows step ys e \<Longrightarrow> follows step (x # ys) e"
  by (cases ys) simp_all

lemma oroot_in: "oroot t = Some a \<Longrightarrow> a \<in> set (addrs t)"
  by (cases t) auto

lemma Next_follows:
  "shape lt h (Some r) par t \<Longrightarrow> distinct (addrs t) \<Longrightarrow> Next_loop h r par = Some e \<Longrightarrow>
   follows (\<lambda>a. Next h (Some a)) (addrs t) e"
proof (induction t arbitrary: r par e)
  case Tip
  then show ?case by simp
next
  case (Fork l a x rt)
  from Fork.prems have ra: "r = a" and pa: "parent (h a) = par"
    and l: "shape lt h (left (h a)) (Some a) l" and rs: "shape lt h (right (h a)) (Some a) rt"
    and d: "distinct (addrs l)" "distinct (addrs rt)" "set (addrs l) \<inter> set (addrs rt) = {}"
    and up: "Next_loop h a par = Some e"
    by auto
  have one: "follows (\<lambda>a. Next h (Some a)) (addrs l) (Some a)"
  proof (cases l)
    case Tip
    then show ?thesis by simp
  next
    case lf: (Fork ll c y lr)
    with l have lc: "left (h a) = Some c" by simp
    have "c \<in> set (addrs l)" by (simp add: lf)
    with d(3) have "c \<notin> set (addrs rt)" by auto
    with oroot_in[of rt c] shape_oroot[OF rs] have "right (h a) \<noteq> Some c" by auto
    then have "Next_loop h c (Some a) = Some (Some a)"
      by (subst Next_loop.simps) auto
    from Fork.IH(1)[OF _ d(1) this] l lc show ?thesis by simp
  qed
  have two: "follows (\<lambda>a. Next h (Some a)) (a # addrs rt) e"
  proof (cases rt)
    case Tip
    with rs have "right (h a) = None" by simp
    then show ?thesis using up pa by (simp add: Tip Next_def)
  next
    case rf: (Fork rl c y rr)
    with rs have rc: "right (h a) = Some c" by simp
    have "Next_loop h c (Some a) = Some e"
      using up rc pa by (subst Next_loop.simps) simp
    from Fork.IH(2)[OF _ d(2) this] rs rc
    have f: "follows (\<lambda>a. Next h (Some a)) (addrs rt) e" by simp
    from rs rc have "Min_loop h c = Some (hd (addrs rt))" by (simp add: Min_loop_shape)
    then have "Next h (Some a) = Some (Inr (Some (hd (addrs rt))))"
      by (simp add: Next_def rc Node_Min_def)
    with f show ?thesis by (intro follows_Cons) (simp_all add: rf)
  qed
  from follows_append[OF one two] show ?case by simp
qed

lemma Prev_follows:
  "shape lt h (Some r) par t \<Longrightarrow> distinct (addrs t) \<Longrightarrow> Prev_loop h r par = Some e \<Longrightarrow>
   follows (\<lambda>a. Prev h (Some a)) (rev (addrs t)) e"
proof (induction t arbitrary: r par e)
  case Tip
  then show ?case by simp
next
  case (Fork l a x rt)
  from Fork.prems have ra: "r = a" and pa: "parent (h a) = par"
    and l: "shape lt h (left (h a)) (Some a) l" and rs: "shape lt h (right (h a)) (Some a) rt"
    and d: "distinct (addrs l)" "distinct (addrs rt)" "set (addrs l) \<inter> set (addrs rt) = {}"
    and up: "Prev_loop h a par = Some e"
    by auto
  have one: "follows (\<lambda>a. Prev h (Some a)) (rev (addrs rt)) (Some a)"
  proof (cases rt)
    case Tip
    then show ?thesis by simp
  next
    case rf: (Fork rl c y rr)
    with rs have rc: "right (h a) = Some c" by simp
    have "c \<in> set (addrs rt)" by (simp add: rf)
    with d(3) have "c \<notin> set (addrs l)" by auto
    with oroot_in[of l c] shape_oroot[OF l] have "left (h a) \<noteq> Some c" by auto
    then have "Prev_loop h c (Some a) = Some (Some a)"
      by (subst Prev_loop.simps) auto
    from Fork.IH(2)[OF _ d(2) this] rs rc show ?thesis by simp
  qed
  have two: "follows (\<lambda>a. Prev h (Some a)) (a # rev (addrs l)) e"
  proof (cases l)
    case Tip
    with l have "left (h a) = None" by simp
    then show ?thesis using up pa by (simp add: Tip Prev_def)
  next
    case lf: (Fork ll c y lr)
    with l have lc: "left (h a) = Some c" by simp
    have "Prev_loop h c (Some a) = Some e"
      using up lc pa by (subst Prev_loop.simps) simp
    from Fork.IH(1)[OF _ d(1) this] l lc
    have f: "follows (\<lambda>a. Prev h (Some a)) (rev (addrs l)) e" by simp
    from l lc have "Max_loop h c = Some (last (addrs l))" by (simp add: Max_loop_shape)
    then have "Prev h (Some a) = Some (Inr (Some (hd (rev (addrs l)))))"
      by (simp add: Prev_def lc Node_Max_def hd_rev)
    with f show ?thesis by (intro follows_Cons) (simp_all add: lf)
  qed
  from follows_append[OF one two] show ?case by simp
qed

lemma iter_Next_follows:
  "follows (\<lambda>a. Next h (Some a)) xs None \<Longrightarrow> xs \<noteq> [] \<Longrightarrow>
   iter_Next h (Some (hd xs)) = Some (Inr xs)"
proof (induction xs rule: induct_list012)
  case 1
  then show ?case by simp
next
  case (2 x)
  then show ?case by (subst iter_Next.simps) (simp add: iter_Next.simps[of h None])
next
  case (3 x y zs)
  then show ?case by (subst iter_Next.simps) simp
qed

lemma iter_Prev_follows:
  "follows (\<lambda>a. Prev h (Some a)) xs None \<Longrightarrow> xs \<noteq> [] \<Longrightarrow>
   iter_Prev h (Some (hd xs)) = Some (Inr xs)"
proof (induction xs rule: induct_list012)
  case 1
  then show ?case by simp
next
  case (2 x)
  then show ?case by (subst iter_Prev.simps) (simp add: iter_Prev.simps[of h None])
next
  case (3 x y zs)
  then show ?case by (subst iter_Prev.simps) simp
qed

lemma follows_last:
  "follows step xs e \<Longrightarrow> xs \<noteq> [] \<Longrightarrow> step (last xs) = Some (Inr e)"
  by (induction xs rule: induct_list012) simp_all

section \<open>The example tree\<close>

lemma demo_shape: "shape (<) (heap demo) (root demo) None demo_tree"
  by (simp add: demo_def demo_heap_def demo_tree_def)

lemma demo_bst: "bst (<) demo_tree"
  by (simp add: demo_tree_def)

section \<open>Deletion: the pointer surgery\<close>

lemma shape_reparent:
  assumes "shape lt h (Some a) pv t" "distinct (addrs t)"
    "h' a = (h a)\<lparr>parent := q\<rparr>" "\<And>x. x \<in> set (addrs t) \<Longrightarrow> x \<noteq> a \<Longrightarrow> h' x = h x"
  shows "shape lt h' (Some a) q t"
proof (cases t)
  case Tip
  with assms(1) show ?thesis by simp
next
  case (Fork l b x r)
  with assms(1) have ab: "b = a" and c: "val (h a) = x" "lessFn (h a) = lt"
    and l: "shape lt h (left (h a)) (Some a) l" and r: "shape lt h (right (h a)) (Some a) r"
    by auto
  from assms(2) Fork ab have d: "a \<notin> set (addrs l)" "a \<notin> set (addrs r)" by auto
  have "shape lt h' (left (h a)) (Some a) l"
    using d assms(4) by (intro shape_cong[OF l]) (auto simp: Fork)
  moreover have "shape lt h' (right (h a)) (Some a) r"
    using d assms(4) by (intro shape_cong[OF r]) (auto simp: Fork)
  ultimately show ?thesis using c by (simp add: Fork ab assms(3))
qed

lemma transplant_fields:
  "size' (transplant T u v) = size' T" "fresh (transplant T u v) = fresh T"
  "lessFn' (transplant T u v) = lessFn' T"
  "root (transplant T u v) = (if parent (heap T u) = None then v else root T)"
  by (auto simp: transplant_def Let_def split: option.splits)

lemma transplant_frame:
  "parent (heap T u) \<noteq> Some x \<Longrightarrow> v \<noteq> Some x \<Longrightarrow> heap (transplant T u v) x = heap T x"
  by (auto simp: transplant_def Let_def split: option.splits)

lemma transplant_slot:
  "parent (heap T u) = Some pa \<Longrightarrow> v \<noteq> Some pa \<Longrightarrow>
   heap (transplant T u v) pa =
     (if Some u = left (heap T pa) then (heap T pa)\<lparr>left := v\<rparr> else (heap T pa)\<lparr>right := v\<rparr>)"
  by (auto simp: transplant_def Let_def split: option.splits)

lemma transplant_moved:
  "parent (heap T u) \<noteq> Some w \<Longrightarrow>
   heap (transplant T u (Some w)) w = (heap T w)\<lparr>parent := parent (heap T u)\<rparr>"
  by (auto simp: transplant_def Let_def split: option.splits)

lemma transplant_shape:
  assumes "shape lt (heap T) v pv tv" "distinct (addrs tv)"
    "\<And>pa. parent (heap T u) = Some pa \<Longrightarrow> pa \<notin> set (addrs tv)"
  shows "shape lt (heap (transplant T u v)) v (parent (heap T u)) tv"
proof (cases tv)
  case Tip
  with assms(1) show ?thesis by simp
next
  case (Fork l w x r)
  with assms(1) have v: "v = Some w" by simp
  have w: "parent (heap T u) \<noteq> Some w" using assms(3) Fork by auto
  show ?thesis unfolding v
  proof (rule shape_reparent[OF assms(1)[unfolded v] assms(2)])
    show "heap (transplant T u (Some w)) w = (heap T w)\<lparr>parent := parent (heap T u)\<rparr>"
      by (rule transplant_moved[OF w])
    show "heap (transplant T u (Some w)) x = heap T x" if "x \<in> set (addrs tv)" "x \<noteq> w" for x
      using that assms(3) by (intro transplant_frame) auto
  qed
qed

lemma removeNode_loop_shape:
  "shape lt h (Some b) par (Fork l b y r) \<Longrightarrow> removeNode_loop h b = Some (fst (take_min l b y r))"
proof (induction l arbitrary: b y r par)
  case Tip
  then show ?case by (subst removeNode_loop.simps) simp
next
  case (Fork ll c z lr)
  from Fork.prems have lc: "left (h b) = Some c" and s: "shape lt h (Some c) (Some b) (Fork ll c z lr)"
    by auto
  from Fork.IH(1)[OF s] show ?case
    by (subst removeNode_loop.simps) (simp add: lc split: prod.splits)
qed

lemma take_min_addrs:
  "take_min l b y r = (s, sv, t') \<Longrightarrow> addrs (Fork l b y r) = s # addrs t'"
proof (induction l arbitrary: b y r s sv t')
  case Tip
  then show ?case by simp
next
  case (Fork ll c z lr)
  obtain s1 sv1 l1 where sp: "take_min ll c z lr = (s1, sv1, l1)" by (metis prod_cases3)
  from Fork.IH(1)[OF sp] Fork.prems sp show ?case by auto
qed

lemma take_min_inorder:
  "take_min l b y r = (s, sv, t') \<Longrightarrow> inorder (Fork l b y r) = sv # inorder t'"
proof (induction l arbitrary: b y r s sv t')
  case Tip
  then show ?case by simp
next
  case (Fork ll c z lr)
  obtain s1 sv1 l1 where sp: "take_min ll c z lr = (s1, sv1, l1)" by (metis prod_cases3)
  from Fork.IH(1)[OF sp] Fork.prems sp show ?case by auto
qed

lemma take_min_Tip: "take_min Tip b y r = (s, sv, t') \<longleftrightarrow> s = b \<and> sv = y \<and> t' = r"
  by auto

lemma take_min_cell:
  "shape lt h (Some b) par (Fork l b y r) \<Longrightarrow> take_min l b y r = (s, sv, t') \<Longrightarrow>
   val (h s) = sv \<and> lessFn (h s) = lt \<and> left (h s) = None"
proof (induction l arbitrary: b y r par s sv t')
  case Tip
  then show ?case by auto
next
  case (Fork ll c z lr)
  obtain s1 sv1 l1 where sp: "take_min ll c z lr = (s1, sv1, l1)" by (metis prod_cases3)
  from Fork.prems(1) have "shape lt h (Some c) (Some b) (Fork ll c z lr)" by auto
  from Fork.IH(1)[OF this sp] Fork.prems(2) sp show ?case by auto
qed

text \<open>The surgery on the right subtree when the successor lies below its root.\<close>

lemma take_min_transplant:
  assumes "heap T = h"
  shows "shape lt h (Some b) par (Fork l b y r) \<Longrightarrow> l \<noteq> Tip \<Longrightarrow>
   distinct (addrs (Fork l b y r)) \<Longrightarrow> take_min l b y r = (s, sv, t') \<Longrightarrow>
   shape lt (heap (transplant T s (right (h s)))) (Some b) par t' \<and>
   (\<forall>x. x \<notin> set (addrs (Fork l b y r)) \<longrightarrow> heap (transplant T s (right (h s))) x = h x) \<and>
   heap (transplant T s (right (h s))) s = h s \<and>
   (\<exists>ps\<in>set (addrs (Fork l b y r)). parent (h s) = Some ps) \<and> s \<noteq> b"
proof (induction l arbitrary: b y r par t')
  case Tip
  then show ?case by simp
next
  case (Fork ll c z lr)
  let ?T2 = "transplant T s (right (h s))"
  from Fork.prems(1) have b: "val (h b) = y" "lessFn (h b) = lt" "parent (h b) = par"
    and lc: "left (h b) = Some c"
    and shl: "shape lt h (Some c) (Some b) (Fork ll c z lr)"
    and shr: "shape lt h (right (h b)) (Some b) r"
    by auto
  from Fork.prems(3) have d: "distinct (addrs (Fork ll c z lr))" "distinct (addrs r)"
    "b \<notin> set (addrs (Fork ll c z lr))" "b \<notin> set (addrs r)"
    "set (addrs (Fork ll c z lr)) \<inter> set (addrs r) = {}"
    by auto
  show ?case
  proof (cases "ll = Tip")
    case True
    with Fork.prems(4) have s: "s = c" "sv = z" and t': "t' = Fork lr b y r" by auto
    from shl True have c: "parent (h c) = Some b" "left (h c) = None"
      and shlr: "shape lt h (right (h c)) (Some c) lr" by auto
    have pc: "parent (heap T c) = Some b" using c assms by simp
    have blr: "b \<notin> set (addrs lr)" "c \<notin> set (addrs lr)" "distinct (addrs lr)" using d by auto
    have rb: "right (h c) \<noteq> Some b" "right (h c) \<noteq> Some c"
      using shape_oroot[OF shlr] oroot_in[of lr] blr by auto
    have 1: "shape lt (heap (transplant T c (right (h c)))) (right (h c)) (Some b) lr"
      using transplant_shape[of lt T "right (h c)" "Some c" lr c] shlr blr pc assms by auto
    have 2: "heap (transplant T c (right (h c))) b = (h b)\<lparr>left := right (h c)\<rparr>"
      using transplant_slot[OF pc, of "right (h c)"] rb lc assms by simp
    have fr: "heap (transplant T c (right (h c))) x = h x" if "x \<noteq> b" "x \<notin> set (addrs lr)" for x
      using that transplant_frame[of T c x "right (h c)"] pc shape_oroot[OF shlr] oroot_in[of lr x] assms
      by auto
    have 3: "shape lt (heap (transplant T c (right (h c)))) (right (h b)) (Some b) r"
      using d by (intro shape_cong[OF shr] fr) auto
    have "c \<noteq> b" using d by auto
    then show ?thesis using 1 2 3 b c fr blr by (auto simp: s t')
  next
    case False
    obtain l1 where sp: "take_min ll c z lr = (s, sv, l1)" and t': "t' = Fork l1 b y r"
      using Fork.prems(4) by (auto split: prod.splits)
    from Fork.IH(1)[OF shl False d(1) sp]
    have 1: "shape lt (heap ?T2) (Some c) (Some b) l1"
      and fr: "\<forall>x. x \<notin> set (addrs (Fork ll c z lr)) \<longrightarrow> heap ?T2 x = h x"
      and s: "heap ?T2 s = h s" "\<exists>ps\<in>set (addrs (Fork ll c z lr)). parent (h s) = Some ps" "s \<noteq> c"
      by auto
    have sin: "s \<in> set (addrs (Fork ll c z lr))" using take_min_addrs[OF sp] by (metis list.set_intros(1))
    have hb: "heap ?T2 b = h b" using fr d by auto
    have 3: "shape lt (heap ?T2) (right (h b)) (Some b) r"
      using d fr by (intro shape_cong[OF shr]) auto
    have "s \<noteq> b" using sin d by auto
    then show ?thesis using 1 3 b lc hb fr s by (auto simp: t')
  qed
qed

lemma removeNode_local:
  assumes sh: "shape lt (heap T) (Some n) par (Fork l n v r)"
    and d: "distinct (addrs (Fork l n v r))"
    and pa: "\<And>pa. par = Some pa \<Longrightarrow> pa \<notin> set (addrs (Fork l n v r))"
  shows "\<exists>T'. removeNode T n = Some (Inr T') \<and>
     shape lt (heap T') (oroot (join l r)) par (join l r) \<and>
     (\<forall>x. x \<notin> set (addrs (Fork l n v r)) \<longrightarrow> par \<noteq> Some x \<longrightarrow> heap T' x = heap T x) \<and>
     (case par of
        None \<Rightarrow> root T' = oroot (join l r)
      | Some pa \<Rightarrow> root T' = root T \<and>
          heap T' pa = (if Some n = left (heap T pa) then (heap T pa)\<lparr>left := oroot (join l r)\<rparr>
                        else (heap T pa)\<lparr>right := oroot (join l r)\<rparr>)) \<and>
     size' T' = size' T - 1 \<and> fresh T' = fresh T \<and> lessFn' T' = lessFn' T"
proof -
  let ?h = "heap T"
  from sh have pn: "parent (?h n) = par"
    and shl: "shape lt ?h (left (?h n)) (Some n) l" and shr: "shape lt ?h (right (?h n)) (Some n) r"
    by auto
  from d have dl: "distinct (addrs l)" and dr: "distinct (addrs r)"
    and nl: "n \<notin> set (addrs l)" and nr: "n \<notin> set (addrs r)"
    and lr: "set (addrs l) \<inter> set (addrs r) = {}" by auto
  have ol: "left (?h n) = oroot l" and or: "right (?h n) = oroot r"
    using shape_oroot[OF shl] shape_oroot[OF shr] by simp_all
  show ?thesis
  proof (cases l)
    case Tip
    let ?T' = "(transplant T n (right (?h n)))\<lparr>size' := size' T - 1\<rparr>"
    have ln: "left (?h n) = None" using shl Tip by simp
    have rm: "removeNode T n = Some (Inr ?T')"
      by (simp add: removeNode_def ln transplant_fields)
    have s: "shape lt (heap ?T') (oroot r) par r"
      using transplant_shape[OF shr dr, of n] pa pn or by auto
    have f: "heap ?T' x = ?h x" if "x \<notin> set (addrs (Fork l n v r))" "par \<noteq> Some x" for x
    proof -
      have "parent (?h n) \<noteq> Some x" "right (?h n) \<noteq> Some x"
        using that pn or oroot_in[of r x] by auto
      then show ?thesis by (simp add: transplant_frame)
    qed
    have c: "heap ?T' p = (if Some n = left (?h p) then (?h p)\<lparr>left := oroot r\<rparr>
                           else (?h p)\<lparr>right := oroot r\<rparr>)" if "par = Some p" for p
    proof -
      have "right (?h n) \<noteq> Some p" using or oroot_in[of r p] pa[OF that] by auto
      with transplant_slot[of T n p "right (?h n)"] that pn or show ?thesis by simp
    qed
    show ?thesis
      using rm s f c pn or by (intro exI[of _ ?T']) (auto simp: Tip transplant_fields split: option.splits)
  next
    case lF: (Fork ll a lv lrr)
    then have ln: "left (?h n) = Some a" using shl by simp
    show ?thesis
    proof (cases r)
      case Tip
      let ?T' = "(transplant T n (left (?h n)))\<lparr>size' := size' T - 1\<rparr>"
      have rn: "right (?h n) = None" using shr Tip by simp
      have rm: "removeNode T n = Some (Inr ?T')"
        by (simp add: removeNode_def ln rn transplant_fields)
      have s: "shape lt (heap ?T') (oroot l) par l"
        using transplant_shape[OF shl dl, of n] pa pn ol by auto
      have f: "heap ?T' x = ?h x" if "x \<notin> set (addrs (Fork l n v r))" "par \<noteq> Some x" for x
      proof -
        have "parent (?h n) \<noteq> Some x" "left (?h n) \<noteq> Some x"
          using that pn ol oroot_in[of l x] by auto
        then show ?thesis by (simp add: transplant_frame)
      qed
      have c: "heap ?T' p = (if Some n = left (?h p) then (?h p)\<lparr>left := oroot l\<rparr>
                             else (?h p)\<lparr>right := oroot l\<rparr>)" if "par = Some p" for p
      proof -
        have "left (?h n) \<noteq> Some p" using ol oroot_in[of l p] pa[OF that] by auto
        with transplant_slot[of T n p "left (?h n)"] that pn ol show ?thesis by simp
      qed
      have j: "join l r = l" by (simp add: Tip lF)
      show ?thesis
        using rm s f c pn ol unfolding j
        by (intro exI[of _ ?T']) (auto simp: transplant_fields split: option.splits)
    next
      case rF: (Fork rl b rv rrr)
      then have rn: "right (?h n) = Some b" using shr by simp
      obtain s sv r' where tm: "take_min rl b rv rrr = (s, sv, r')" by (metis prod_cases3)
      have j: "join l r = Fork l s sv r'" by (simp add: lF rF tm)
      have shr': "shape lt ?h (Some b) (Some n) (Fork rl b rv rrr)" using shr rn rF by simp
      have loop: "removeNode_loop ?h b = Some s"
        using removeNode_loop_shape[OF shr'] tm by simp
      have ar: "addrs r = s # addrs r'" using take_min_addrs[OF tm] rF by simp
      have sr: "s \<in> set (addrs r)" "s \<notin> set (addrs r')" "distinct (addrs r')"
        "set (addrs r') \<subseteq> set (addrs r)"
        using ar dr by auto
      have sc: "val (?h s) = sv" "lessFn (?h s) = lt" "left (?h s) = None"
        using take_min_cell[OF shr' tm] by simp_all
      have an: "a \<in> set (addrs l)" "a \<noteq> n" "a \<noteq> s" "a \<notin> set (addrs r)" "s \<noteq> n" "b \<noteq> n"
        "b \<in> set (addrs r)" "s \<notin> set (addrs l)"
        using lF rF nl nr lr sr by auto
      define R1 where "R1 =
        (if parent (?h s) \<noteq> Some n
         then (let t2 = transplant T s (right (?h s));
                   h2 = heap t2;
                   h3 = h2(s := (h2 s)\<lparr>right := right (h2 n)\<rparr>)
               in case right (h3 s) of
                    None \<Rightarrow> Inl NilDereference
                  | Some nr \<Rightarrow> Inr (t2\<lparr>heap := h3(nr := (h3 nr)\<lparr>parent := Some s\<rparr>)\<rparr>))
         else Inr T)"
      have "\<exists>T1. R1 = Inr T1 \<and> (\<exists>ps. shape lt (heap T1) (Some s) ps (Fork Tip s sv r')) \<and>
                (\<forall>x. x \<notin> set (addrs r) \<longrightarrow> heap T1 x = ?h x) \<and>
                root T1 = root T \<and> fresh T1 = fresh T \<and> lessFn' T1 = lessFn' T \<and> size' T1 = size' T"
      proof (cases "rl = Tip")
        case True
        with tm have "s = b" "r' = rrr" by auto
        with shr' True have "parent (?h s) = Some n" "shape lt ?h (Some s) (Some n) (Fork Tip s sv r')"
          using sc by auto
        then show ?thesis by (auto simp: R1_def)
      next
        case False
        let ?T2 = "transplant T s (right (?h s))"
        from take_min_transplant[OF refl shr' False _ tm] dr rF
        have 1: "shape lt (heap ?T2) (Some b) (Some n) r'"
          and fr: "\<forall>x. x \<notin> set (addrs r) \<longrightarrow> heap ?T2 x = ?h x"
          and hs: "heap ?T2 s = ?h s"
          and ps: "\<exists>ps\<in>set (addrs r). parent (?h s) = Some ps" and sb: "s \<noteq> b"
          by auto
        from ps nr have psn: "parent (?h s) \<noteq> Some n" "parent (?h s) \<noteq> None" by auto
        have h2n: "heap ?T2 n = ?h n" using fr nr by simp
        define h3 where "h3 = (heap ?T2)(s := (heap ?T2 s)\<lparr>right := right (heap ?T2 n)\<rparr>)"
        define h3' where "h3' = h3(b := (h3 b)\<lparr>parent := Some s\<rparr>)"
        have T1e: "R1 = Inr (?T2\<lparr>heap := h3'\<rparr>)"
          using psn by (simp add: R1_def Let_def h3'_def h3_def h2n rn)
        have cs: "h3' s = (?h s)\<lparr>right := Some b\<rparr>"
          using sb by (simp add: h3'_def h3_def hs h2n rn)
        have cb: "h3' b = (heap ?T2 b)\<lparr>parent := Some s\<rparr>"
          using sb by (simp add: h3'_def h3_def)
        have co: "h3' x = heap ?T2 x" if "x \<noteq> s" "x \<noteq> b" for x
          using that by (simp add: h3'_def h3_def)
        have "shape lt h3' (Some b) (Some s) r'"
          using sr by (intro shape_reparent[where h' = h3', OF 1 sr(3) cb] co) auto
        then have "shape lt h3' (Some s) (parent (?h s)) (Fork Tip s sv r')"
          using sc by (simp add: cs)
        moreover have "h3' x = ?h x" if "x \<notin> set (addrs r)" for x
          using that co[of x] fr sr an by auto
        ultimately show ?thesis by (auto simp: T1e transplant_fields psn)
      qed
      then obtain T1 ps where R1: "R1 = Inr T1"
        and 1: "shape lt (heap T1) (Some s) ps (Fork Tip s sv r')"
        and fr1: "\<And>x. x \<notin> set (addrs r) \<Longrightarrow> heap T1 x = ?h x"
        and f1: "root T1 = root T" "fresh T1 = fresh T" "lessFn' T1 = lessFn' T" "size' T1 = size' T"
        by blast
      have h1n: "heap T1 n = ?h n" using fr1 nr by simp
      have pn1: "parent (heap T1 n) = par" using h1n pn by simp
      define T4 where "T4 = transplant T1 n (Some s)"
      have d4: "distinct (addrs (Fork Tip s sv r'))" using sr by simp
      have 4: "shape lt (heap T4) (Some s) par (Fork Tip s sv r')"
        using transplant_shape[OF 1 d4, of n] pn1 pa sr unfolding T4_def by auto
      have fr4: "heap T4 x = heap T1 x" if "par \<noteq> Some x" "x \<noteq> s" for x
        using that pn1 unfolding T4_def by (simp add: transplant_frame)
      have c4: "heap T4 p = (if Some n = left (?h p) then (?h p)\<lparr>left := Some s\<rparr>
                             else (?h p)\<lparr>right := Some s\<rparr>)" if "par = Some p" for p
      proof -
        have "p \<notin> set (addrs r)" "p \<noteq> s" using pa[OF that] sr by auto
        then show ?thesis
          using transplant_slot[of T1 n p "Some s"] pn1 that fr1[of p] unfolding T4_def by auto
      qed
      have h4n: "heap T4 n = ?h n" using fr4[of n] h1n pa an by auto
      define h5 where "h5 = (heap T4)(s := (heap T4 s)\<lparr>left := left (heap T4 n)\<rparr>)"
      define T' where "T' = T4\<lparr>heap := h5(a := (h5 a)\<lparr>parent := Some s\<rparr>), size' := size' T - 1\<rparr>"
      have sz4: "size' T4 = size' T" by (simp add: T4_def transplant_fields f1)
      have rm: "removeNode T n = Some (Inr T')"
        using an by (simp add: removeNode_def ln rn loop Let_def R1_def[symmetric] R1 T4_def[symmetric]
            h5_def ln h4n T'_def sz4)
      have cs: "heap T' s = (heap T4 s)\<lparr>left := Some a\<rparr>"
        using an by (simp add: T'_def h5_def h4n ln)
      have ca: "heap T' a = (?h a)\<lparr>parent := Some s\<rparr>"
      proof -
        have "heap T4 a = ?h a" using fr4[of a] fr1[of a] pa an by auto
        then show ?thesis using an by (simp add: T'_def h5_def)
      qed
      have co: "heap T' x = heap T4 x" if "x \<noteq> s" "x \<noteq> a" for x
        using that by (simp add: T'_def h5_def)
      have shl': "shape lt (heap T') (Some a) (Some s) l"
      proof (rule shape_reparent[where h' = "heap T'", OF shl[unfolded ln] dl ca])
        fix x assume x: "x \<in> set (addrs l)" "x \<noteq> a"
        then have "x \<noteq> s" "x \<notin> set (addrs r)" "par \<noteq> Some x" using an lr pa by auto
        then show "heap T' x = ?h x" using co[of x] fr4[of x] fr1[of x] x by simp
      qed
      from 4 have s4: "val (heap T4 s) = sv" "lessFn (heap T4 s) = lt" "parent (heap T4 s) = par"
        "shape lt (heap T4) (right (heap T4 s)) (Some s) r'" by auto
      have shr'': "shape lt (heap T') (right (heap T4 s)) (Some s) r'"
      proof (rule shape_cong[OF s4(4)])
        fix x assume "x \<in> set (addrs r')"
        then have "x \<noteq> s" "x \<noteq> a" using sr an by auto
        then show "heap T' x = heap T4 x" by (rule co)
      qed
      have s: "shape lt (heap T') (Some s) par (Fork l s sv r')"
        using shl' shr'' s4 by (simp add: cs)
      have f: "heap T' x = ?h x" if "x \<notin> set (addrs (Fork l n v r))" "par \<noteq> Some x" for x
      proof -
        from that an sr have "x \<noteq> s" "x \<noteq> a" "x \<notin> set (addrs r)" by auto
        then show ?thesis using co[of x] fr4[of x] fr1[of x] that by simp
      qed
      have c: "heap T' p = (if Some n = left (?h p) then (?h p)\<lparr>left := Some s\<rparr>
                             else (?h p)\<lparr>right := Some s\<rparr>)" if "par = Some p" for p
      proof -
        have "p \<noteq> s" "p \<noteq> a" using pa[OF that] sr an by auto
        then show ?thesis using co[of p] c4[OF that] by simp
      qed
      have flds: "root T' = (if par = None then Some s else root T)" "size' T' = size' T - 1"
        "fresh T' = fresh T" "lessFn' T' = lessFn' T"
        using pn1 f1 by (simp_all add: T'_def T4_def transplant_fields)
      show ?thesis
        unfolding j using rm s f c flds
        by (intro exI[of _ T']) (auto split: option.splits)
    qed
  qed
qed

lemma remove_absent: "n \<notin> set (addrs t) \<Longrightarrow> remove n t = t"
  by (induction t) auto

lemma removeNode_shape:
  "shape lt (heap T) p par t \<Longrightarrow> distinct (addrs t) \<Longrightarrow> n \<in> set (addrs t) \<Longrightarrow>
   (\<And>pa. par = Some pa \<Longrightarrow> pa \<notin> set (addrs t)) \<Longrightarrow>
   \<exists>T'. removeNode T n = Some (Inr T') \<and>
     shape lt (heap T') (if p = Some n then oroot (remove n t) else p) par (remove n t) \<and>
     (\<forall>x. x \<notin> set (addrs t) \<longrightarrow> (p = Some n \<longrightarrow> par \<noteq> Some x) \<longrightarrow> heap T' x = heap T x) \<and>
     (if p = Some n
      then (case par of
              None \<Rightarrow> root T' = oroot (remove n t)
            | Some pa \<Rightarrow> root T' = root T \<and>
                heap T' pa = (if Some n = left (heap T pa)
                              then (heap T pa)\<lparr>left := oroot (remove n t)\<rparr>
                              else (heap T pa)\<lparr>right := oroot (remove n t)\<rparr>))
      else root T' = root T) \<and>
     size' T' = size' T - 1 \<and> fresh T' = fresh T \<and> lessFn' T' = lessFn' T"
proof (induction t arbitrary: p par)
  case Tip
  then show ?case by simp
next
  case (Fork l a x r)
  let ?h = "heap T"
  from Fork.prems(1) have p: "p = Some a" and ca: "val (?h a) = x" "lessFn (?h a) = lt" "parent (?h a) = par"
    and shl: "shape lt ?h (left (?h a)) (Some a) l" and shr: "shape lt ?h (right (?h a)) (Some a) r"
    by auto
  from Fork.prems(2) have dl: "distinct (addrs l)" and dr: "distinct (addrs r)"
    and al: "a \<notin> set (addrs l)" and ar: "a \<notin> set (addrs r)"
    and lr: "set (addrs l) \<inter> set (addrs r) = {}" by auto
  have ol: "left (?h a) = oroot l" and or: "right (?h a) = oroot r"
    using shape_oroot[OF shl] shape_oroot[OF shr] by simp_all
  show ?case
  proof (cases "n = a")
    case True
    from removeNode_local[OF Fork.prems(1)[unfolded p] Fork.prems(2) Fork.prems(4)]
    obtain T' where "removeNode T a = Some (Inr T')"
      "shape lt (heap T') (oroot (join l r)) par (join l r)"
      "\<forall>y. y \<notin> set (addrs (Fork l a x r)) \<longrightarrow> par \<noteq> Some y \<longrightarrow> heap T' y = heap T y"
      "case par of
        None \<Rightarrow> root T' = oroot (join l r)
      | Some pa \<Rightarrow> root T' = root T \<and>
          heap T' pa = (if Some a = left (heap T pa) then (heap T pa)\<lparr>left := oroot (join l r)\<rparr>
                        else (heap T pa)\<lparr>right := oroot (join l r)\<rparr>)"
      "size' T' = size' T - 1" "fresh T' = fresh T" "lessFn' T' = lessFn' T"
      by blast
    then show ?thesis
      unfolding True p by (intro exI[of _ T']) (auto split: option.splits)
  next
    case na: False
    show ?thesis
    proof (cases "n \<in> set (addrs l)")
      case True
      then have nr: "n \<notin> set (addrs r)" using lr by auto
      from Fork.IH(1)[OF shl dl True] al obtain T' where
        rm: "removeNode T n = Some (Inr T')"
        and s: "shape lt (heap T') (if left (?h a) = Some n then oroot (remove n l) else left (?h a))
                  (Some a) (remove n l)"
        and f: "\<forall>x. x \<notin> set (addrs l) \<longrightarrow> (left (?h a) = Some n \<longrightarrow> a \<noteq> x) \<longrightarrow> heap T' x = ?h x"
        and c: "if left (?h a) = Some n
                then root T' = root T \<and>
                     heap T' a = (if Some n = left (?h a) then (?h a)\<lparr>left := oroot (remove n l)\<rparr>
                                  else (?h a)\<lparr>right := oroot (remove n l)\<rparr>)
                else root T' = root T"
        and flds: "size' T' = size' T - 1" "fresh T' = fresh T" "lessFn' T' = lessFn' T"
        by (auto cong: if_cong)
      have cell: "heap T' a = (?h a)\<lparr>left := (if left (?h a) = Some n then oroot (remove n l) else left (?h a))\<rparr>"
      proof (cases "left (?h a) = Some n")
        case True
        with c show ?thesis by simp
      next
        case False
        with f al have "heap T' a = ?h a" by simp
        with False show ?thesis by simp
      qed
      have sr: "shape lt (heap T') (right (?h a)) (Some a) r"
        using f ar lr by (intro shape_cong[OF shr]) auto
      have "shape lt (heap T') (Some a) par (Fork (remove n l) a x r)"
        using s sr ca by (simp add: cell)
      moreover have "heap T' y = ?h y" if "y \<notin> set (addrs (Fork l a x r))" for y
        using that f by auto
      moreover have "root T' = root T" using c by (auto split: if_splits)
      ultimately show ?thesis
        using rm flds na remove_absent[OF nr] by (intro exI[of _ T']) (simp add: p)
    next
      case False
      with Fork.prems(3) na have nr: "n \<in> set (addrs r)" by simp
      have nl: "n \<notin> set (addrs l)" by (rule False)
      have lne: "left (?h a) \<noteq> Some n" using ol oroot_in[of l n] nl by auto
      from Fork.IH(2)[OF shr dr nr] ar obtain T' where
        rm: "removeNode T n = Some (Inr T')"
        and s: "shape lt (heap T') (if right (?h a) = Some n then oroot (remove n r) else right (?h a))
                  (Some a) (remove n r)"
        and f: "\<forall>x. x \<notin> set (addrs r) \<longrightarrow> (right (?h a) = Some n \<longrightarrow> a \<noteq> x) \<longrightarrow> heap T' x = ?h x"
        and c: "if right (?h a) = Some n
                then root T' = root T \<and>
                     heap T' a = (if Some n = left (?h a) then (?h a)\<lparr>left := oroot (remove n r)\<rparr>
                                  else (?h a)\<lparr>right := oroot (remove n r)\<rparr>)
                else root T' = root T"
        and flds: "size' T' = size' T - 1" "fresh T' = fresh T" "lessFn' T' = lessFn' T"
        by (auto cong: if_cong)
      have cell: "heap T' a = (?h a)\<lparr>right := (if right (?h a) = Some n then oroot (remove n r) else right (?h a))\<rparr>"
      proof (cases "right (?h a) = Some n")
        case True
        with c lne show ?thesis by auto
      next
        case False
        with f ar have "heap T' a = ?h a" by simp
        with False show ?thesis by simp
      qed
      have sl: "shape lt (heap T') (left (?h a)) (Some a) l"
        using f al lr by (intro shape_cong[OF shl]) auto
      have "shape lt (heap T') (Some a) par (Fork l a x (remove n r))"
        using s sl ca by (simp add: cell)
      moreover have "heap T' y = ?h y" if "y \<notin> set (addrs (Fork l a x r))" for y
        using that f by auto
      moreover have "root T' = root T" using c by (auto split: if_splits)
      ultimately show ?thesis
        using rm flds na remove_absent[OF nl] by (intro exI[of _ T']) (simp add: p)
    qed
  qed
qed

lemma removeNode_root:
  assumes "shape lt (heap T) (root T) None t" "distinct (addrs t)" "n \<in> set (addrs t)"
  shows "\<exists>T'. removeNode T n = Some (Inr T') \<and> shape lt (heap T') (root T') None (remove n t) \<and>
     (\<forall>x. x \<notin> set (addrs t) \<longrightarrow> heap T' x = heap T x) \<and>
     size' T' = size' T - 1 \<and> fresh T' = fresh T \<and> lessFn' T' = lessFn' T"
proof -
  from removeNode_shape[where par = None, OF assms] obtain T' where
    "removeNode T n = Some (Inr T')"
    "shape lt (heap T') (if root T = Some n then oroot (remove n t) else root T) None (remove n t)"
    "\<forall>x. x \<notin> set (addrs t) \<longrightarrow> heap T' x = heap T x"
    "if root T = Some n then root T' = oroot (remove n t) else root T' = root T"
    "size' T' = size' T - 1" "fresh T' = fresh T" "lessFn' T' = lessFn' T"
    by (auto split: if_splits)
  then show ?thesis by (intro exI[of _ T']) (auto split: if_splits)
qed

section \<open>Deletion: the tree that results\<close>

lemma addrs_join: "addrs (join l r) = addrs l @ addrs r"
proof (cases l)
  case Tip
  then show ?thesis by simp
next
  case lF: (Fork ll a x lr)
  show ?thesis
  proof (cases r)
    case Tip
    then show ?thesis by (simp add: lF)
  next
    case (Fork rl b y rr)
    obtain s sv r' where tm: "take_min rl b y rr = (s, sv, r')" by (metis prod_cases3)
    from take_min_addrs[OF tm] show ?thesis by (simp add: lF Fork tm)
  qed
qed

lemma inorder_join: "inorder (join l r) = inorder l @ inorder r"
proof (cases l)
  case Tip
  then show ?thesis by simp
next
  case lF: (Fork ll a x lr)
  show ?thesis
  proof (cases r)
    case Tip
    then show ?thesis by (simp add: lF)
  next
    case (Fork rl b y rr)
    obtain s sv r' where tm: "take_min rl b y rr = (s, sv, r')" by (metis prod_cases3)
    from take_min_inorder[OF tm] show ?thesis by (simp add: lF Fork tm)
  qed
qed

lemma addrs_remove: "distinct (addrs t) \<Longrightarrow> addrs (remove n t) = removeAll n (addrs t)"
  by (induction t) (auto simp: addrs_join)

lemma inorder_remove:
  "shape lt h p par t \<Longrightarrow> distinct (addrs t) \<Longrightarrow> n \<in> set (addrs t) \<Longrightarrow>
   \<exists>xs ys. inorder t = xs @ val (h n) # ys \<and> inorder (remove n t) = xs @ ys"
proof (induction t arbitrary: p par)
  case Tip
  then show ?case by simp
next
  case (Fork l a x r)
  from Fork.prems(1) have ca: "val (h a) = x"
    and shl: "shape lt h (left (h a)) (Some a) l" and shr: "shape lt h (right (h a)) (Some a) r"
    by auto
  from Fork.prems(2) have dl: "distinct (addrs l)" and dr: "distinct (addrs r)"
    and lr: "set (addrs l) \<inter> set (addrs r) = {}" by auto
  show ?case
  proof (cases "n = a")
    case True
    then show ?thesis using ca by (auto simp: inorder_join)
  next
    case na: False
    show ?thesis
    proof (cases "n \<in> set (addrs l)")
      case True
      then have "n \<notin> set (addrs r)" using lr by auto
      then have rr: "remove n r = r" by (rule remove_absent)
      from Fork.IH(1)[OF shl dl True] obtain xs ys where
        "inorder l = xs @ val (h n) # ys" "inorder (remove n l) = xs @ ys" by blast
      then have "inorder (Fork l a x r) = xs @ val (h n) # (ys @ x # inorder r)"
        "inorder (remove n (Fork l a x r)) = xs @ (ys @ x # inorder r)"
        using na rr by simp_all
      then show ?thesis by blast
    next
      case False
      then have rl: "remove n l = l" by (rule remove_absent)
      from False Fork.prems(3) na have "n \<in> set (addrs r)" by simp
      from Fork.IH(2)[OF shr dr this] obtain xs ys where
        "inorder r = xs @ val (h n) # ys" "inorder (remove n r) = xs @ ys" by blast
      then have "inorder (Fork l a x r) = (inorder l @ x # xs) @ val (h n) # ys"
        "inorder (remove n (Fork l a x r)) = (inorder l @ x # xs) @ ys"
        using na rl by simp_all
      then show ?thesis by blast
    qed
  qed
qed

lemma set_inorder_remove: "set (inorder (remove n t)) \<subseteq> set (inorder t)"
  by (induction t) (auto simp: inorder_join)

lemma bst_take_min:
  "bst lt (Fork l b y r) \<Longrightarrow> take_min l b y r = (s, sv, t') \<Longrightarrow> bst lt t'"
proof (induction l arbitrary: b y r s sv t')
  case Tip
  then show ?case by auto
next
  case (Fork ll c z lr)
  obtain s1 sv1 l1 where sp: "take_min ll c z lr = (s1, sv1, l1)" by (metis prod_cases3)
  from Fork.prems(1) have bl: "bst lt (Fork ll c z lr)" by simp
  from Fork.IH(1)[OF bl sp] have b1: "bst lt l1" .
  from take_min_inorder[OF sp] have "set (inorder l1) \<subseteq> set (inorder (Fork ll c z lr))"
    by auto
  moreover from Fork.prems(1) have "\<forall>u\<in>set (inorder (Fork ll c z lr)). lt u y"
    by (simp add: list_all_iff)
  ultimately have "list_all (\<lambda>u. lt u y) (inorder l1)"
    unfolding list_all_iff by blast
  with b1 Fork.prems sp show ?case by auto
qed

lemma bst_join:
  assumes tr: "transp lt" and b: "bst lt (Fork l a x r)"
  shows "bst lt (join l r)"
proof (cases l)
  case Tip
  with b show ?thesis by simp
next
  case lF: (Fork ll c z lr)
  show ?thesis
  proof (cases r)
    case Tip
    with b lF show ?thesis by simp
  next
    case (Fork rl d y rr)
    obtain s sv r' where tm: "take_min rl d y rr = (s, sv, r')" by (metis prod_cases3)
    from b have bl: "bst lt l" and br: "bst lt r"
      and L: "\<forall>u\<in>set (inorder l). lt u x" and R: "\<forall>u\<in>set (inorder r). lt x u"
      by (simp_all add: list_all_iff)
    have io: "inorder r = sv # inorder r'" using take_min_inorder[OF tm] Fork by simp
    have "sorted_wrt lt (inorder r)" by (rule sorted_inorder[OF tr br])
    then have 1: "\<forall>u\<in>set (inorder r'). lt sv u" by (simp add: io)
    have "lt x sv" using R io by simp
    then have 2: "\<forall>u\<in>set (inorder l). lt u sv" using L transpD[OF tr] by blast
    have 3: "bst lt r'" using bst_take_min[OF br[unfolded Fork] tm] .
    have "bst lt (Fork l s sv r')" using 1 2 3 bl by (simp add: list_all_iff)
    then show ?thesis by (simp add: lF Fork tm)
  qed
qed

lemma bst_remove:
  assumes tr: "transp lt"
  shows "bst lt t \<Longrightarrow> bst lt (remove n t)"
proof (induction t)
  case Tip
  then show ?case by simp
next
  case (Fork l a x r)
  show ?case
  proof (cases "n = a")
    case True
    then show ?thesis using bst_join[OF tr Fork.prems] by simp
  next
    case False
    then show ?thesis
      using Fork set_inorder_remove[of n l] set_inorder_remove[of n r]
      by (auto simp: list_all_iff)
  qed
qed

lemma lookup_self:
  assumes as: "asymp lt"
  shows "shape lt h p par t \<Longrightarrow> bst lt t \<Longrightarrow> distinct (addrs t) \<Longrightarrow> n \<in> set (addrs t) \<Longrightarrow>
         lookup lt (val (h n)) t = Some n"
proof (induction t arbitrary: p par)
  case Tip
  then show ?case by simp
next
  case (Fork l a x r)
  from Fork.prems(1) have ca: "val (h a) = x"
    and shl: "shape lt h (left (h a)) (Some a) l" and shr: "shape lt h (right (h a)) (Some a) r"
    by auto
  from Fork.prems(2) have bl: "bst lt l" and br: "bst lt r"
    and L: "\<forall>u\<in>set (inorder l). lt u x" and R: "\<forall>u\<in>set (inorder r). lt x u"
    by (simp_all add: list_all_iff)
  from Fork.prems(3) have dl: "distinct (addrs l)" and dr: "distinct (addrs r)" by auto
  have irr: "\<not> lt u u" for u using asympD[OF as] by blast
  show ?case
  proof (cases "n = a")
    case True
    then show ?thesis using ca irr by simp
  next
    case na: False
    show ?thesis
    proof (cases "n \<in> set (addrs l)")
      case True
      from val_in_inorder[OF shl True] L have "lt (val (h n)) x" by simp
      then show ?thesis using Fork.IH(1)[OF shl bl dl True] by simp
    next
      case False
      with Fork.prems(4) na have nr: "n \<in> set (addrs r)" by simp
      from val_in_inorder[OF shr nr] R have "lt x (val (h n))" by simp
      then have "\<not> lt (val (h n)) x" using asympD[OF as] by blast
      then show ?thesis using Fork.IH(2)[OF shr br dr nr] \<open>lt x (val (h n))\<close> by simp
    qed
  qed
qed

lemma Delete_found:
  assumes "shape lt (heap T) (root T) None t" "distinct (addrs t)" "lookup lt v t = Some n"
  shows "\<exists>T'. Delete T v = Some (Inr (True, T')) \<and> shape lt (heap T') (root T') None (remove n t) \<and>
     (\<forall>x. x \<notin> set (addrs t) \<longrightarrow> heap T' x = heap T x) \<and>
     size' T' = size' T - 1 \<and> fresh T' = fresh T \<and> lessFn' T' = lessFn' T"
proof -
  have n: "n \<in> set (addrs t)" using lookup_sound[OF assms(1,3)] by simp
  from removeNode_root[OF assms(1,2) n] obtain T' where
    "removeNode T n = Some (Inr T')" "shape lt (heap T') (root T') None (remove n t)"
    "\<forall>x. x \<notin> set (addrs t) \<longrightarrow> heap T' x = heap T x"
    "size' T' = size' T - 1" "fresh T' = fresh T" "lessFn' T' = lessFn' T" by blast
  then show ?thesis
    using Find_shape[OF assms(1), of v] assms(3)
    by (intro exI[of _ T']) (simp add: Delete_def Tree_Find_def)
qed

lemma Delete_absent:
  assumes "shape lt (heap T) (root T) None t" "lookup lt v t = None"
  shows "Delete T v = Some (Inr (False, T))"
  using Find_shape[OF assms(1), of v] assms(2) by (simp add: Delete_def Tree_Find_def)

lemma Delete_inv:
  assumes "invariants lt T t" "transp lt"
  shows "\<exists>b T'. Delete T v = Some (Inr (b, T')) \<and>
     invariants lt T' (case lookup lt v t of None \<Rightarrow> t | Some n \<Rightarrow> remove n t)"
proof -
  from assms(1) have sh: "shape lt (heap T) (root T) None t" and b: "bst lt t"
    and sz: "size' T = int (length (addrs t))" and d: "distinct (addrs t)"
    and fr: "\<forall>a\<in>set (addrs t). a < fresh T" and lf: "lessFn' T = lt"
    by (simp_all add: invariants_def list_all_iff)
  show ?thesis
  proof (cases "lookup lt v t")
    case None
    then show ?thesis using Delete_absent[OF sh None] assms(1) by auto
  next
    case (Some n)
    have n: "n \<in> set (addrs t)" using lookup_sound[OF sh Some] by simp
    from Delete_found[OF sh d Some] obtain T' where T':
      "Delete T v = Some (Inr (True, T'))" "shape lt (heap T') (root T') None (remove n t)"
      "size' T' = size' T - 1" "fresh T' = fresh T" "lessFn' T' = lessFn' T" by blast
    have pos: "length (addrs t) > 0" using n by (cases "addrs t") auto
    have "length (addrs (remove n t)) = length (addrs t) - 1"
      using d n by (simp add: addrs_remove distinct_remove1_removeAll[symmetric] length_remove1)
    then have len: "int (length (addrs (remove n t))) = int (length (addrs t)) - 1"
      using pos by linarith
    have dd: "distinct (addrs (remove n t))" using d by (simp add: addrs_remove distinct_removeAll)
    have ff: "\<forall>a\<in>set (addrs (remove n t)). a < fresh T" using d fr by (simp add: addrs_remove)
    have "invariants lt T' (remove n t)"
      using T' bst_remove[OF assms(2) b, of n] dd ff lf sz len
      by (simp add: invariants_def list_all_iff)
    then show ?thesis using T'(1) Some by auto
  qed
qed

lemma demo_invariants: "invariants (<) demo demo_tree"
  by (simp add: invariants_def demo_def demo_heap_def demo_tree_def)

lemma eqv_int: "transp (eqv ((<) :: int \<Rightarrow> int \<Rightarrow> bool))"
  by (rule transpI) (auto simp: eqv_def)

section \<open>Randomised initialisation and runs of operations\<close>

lemma RandInit_loop_Init:
  "\<forall>i<k. rnd i \<le> i \<Longrightarrow> k \<le> length idx \<Longrightarrow> \<forall>j\<in>set idx. j < length vs \<Longrightarrow>
   RandInit_loop rnd vs k idx T = map_option Inr (Init T (map ((!) vs) (draw_order rnd k idx)))"
proof (induction k arbitrary: idx T)
  case 0
  then show ?case by simp
next
  case (Suc i)
  let ?r = "rnd i"
  let ?idx' = "idx[?r := idx ! i, i := idx ! ?r]"
  from Suc.prems have r: "?r \<le> i" "?r < length idx" "i < length idx" by auto
  with Suc.prems(3) have v: "idx ! ?r < length vs" "idx ! i < length vs" by auto
  have 1: "\<forall>j<i. rnd j \<le> j" using Suc.prems(1) by auto
  have 2: "i \<le> length ?idx'" using r by simp
  have 3: "\<forall>j\<in>set ?idx'. j < length vs"
  proof
    fix j assume "j \<in> set ?idx'"
    then have "j \<in> insert (idx ! ?r) (insert (idx ! i) (set idx))"
      using set_update_subset_insert[of "idx[?r := idx ! i]" i "idx ! ?r"]
        set_update_subset_insert[of idx ?r "idx ! i"] by auto
    then show "j < length vs" using v Suc.prems(3) by auto
  qed
  have IH: "RandInit_loop rnd vs i ?idx' T' = map_option Inr (Init T' (map ((!) vs) (draw_order rnd i ?idx')))" for T'
    by (rule Suc.IH[OF 1 2 3])
  show ?case
    using r v by (cases "Insert T (vs ! (idx ! ?r))") (auto simp: IH Let_def)
qed

lemma mset_draw_order:
  "\<forall>i<k. rnd i \<le> i \<Longrightarrow> k \<le> length idx \<Longrightarrow> mset (draw_order rnd k idx) = mset (take k idx)"
proof (induction k arbitrary: idx)
  case 0
  then show ?case by simp
next
  case (Suc i)
  let ?r = "rnd i"
  let ?idx' = "idx[?r := idx ! i, i := idx ! ?r]"
  from Suc.prems have r: "?r \<le> i" "i < length idx" by auto
  have 1: "\<forall>j<i. rnd j \<le> j" using Suc.prems(1) by auto
  have 2: "i \<le> length ?idx'" using r by simp
  have IH: "mset (draw_order rnd i ?idx') = mset (take i ?idx')" by (rule Suc.IH[OF 1 2])
  have tk: "take (Suc i) idx = take i idx @ [idx ! i]" using r by (simp add: take_Suc_conv_app_nth)
  show ?case
  proof (cases "?r = i")
    case True
    then show ?thesis using IH tk by simp
  next
    case False
    with r have lt: "?r < i" by simp
    have "take i ?idx' = (take i idx)[?r := idx ! i]"
      by (simp add: take_update_swap list_update_beyond)
    moreover have "mset ((take i idx)[?r := idx ! i]) = add_mset (idx ! i) (mset (take i idx) - {#idx ! ?r#})"
      using lt r by (simp add: mset_update)
    moreover have "idx ! ?r \<in># mset (take i idx)"
      using lt r by (metis in_set_conv_nth length_take min.absorb2 less_imp_le_nat nth_take set_mset_mset order.strict_implies_order)
    ultimately show ?thesis using IH tk by simp
  qed
qed

lemma RandInit_Init:
  assumes "\<forall>i<length vs. rnd i \<le> i"
  shows "RandInit rnd T vs =
           map_option Inr (Init T (map ((!) vs) (draw_order rnd (length vs) [0..<length vs])))"
    and "mset (map ((!) vs) (draw_order rnd (length vs) [0..<length vs])) = mset vs"
proof -
  show "RandInit rnd T vs =
           map_option Inr (Init T (map ((!) vs) (draw_order rnd (length vs) [0..<length vs])))"
    unfolding RandInit_def using assms by (intro RandInit_loop_Init) auto
  have "mset (draw_order rnd (length vs) [0..<length vs]) = mset [0..<length vs]"
    using mset_draw_order[of "length vs" rnd "[0..<length vs]"] assms by simp
  then have "mset (map ((!) vs) (draw_order rnd (length vs) [0..<length vs])) =
             mset (map ((!) vs) [0..<length vs])"
    by (metis mset_map)
  then show "mset (map ((!) vs) (draw_order rnd (length vs) [0..<length vs])) = mset vs"
    by (simp add: map_nth)
qed

lemma apply_op_inv:
  assumes "invariants lt T t" "transp lt" "draws_ok x"
  shows "\<exists>T' t'. apply_op T x = Some (Inr T') \<and> invariants lt T' t'"
proof (cases x)
  case (OpInsert v)
  from Insert_inv[OF assms(1), of v] show ?thesis by (auto simp: OpInsert)
next
  case (OpDelete v)
  from Delete_inv[OF assms(1,2), of v] show ?thesis by (auto simp: OpDelete)
next
  case (OpInit vs)
  from Init_inv[OF assms(1), of vs] show ?thesis by (auto simp: OpInit)
next
  case (OpRandInit rnd vs)
  with assms(3) have ok: "\<forall>i<length vs. rnd i \<le> i" by (simp add: list_all_iff)
  from Init_inv[OF assms(1), of "map ((!) vs) (draw_order rnd (length vs) [0..<length vs])"]
  show ?thesis by (auto simp: OpRandInit RandInit_Init(1)[OF ok])
qed

lemma run_inv:
  assumes "transp lt"
  shows "invariants lt T t \<Longrightarrow> list_all draws_ok ops \<Longrightarrow>
         \<exists>T' t'. run T ops = Some (Inr T') \<and> invariants lt T' t'"
proof (induction ops arbitrary: T t)
  case Nil
  then show ?case by auto
next
  case (Cons x xs)
  from Cons.prems(2) have ok: "draws_ok x" "list_all draws_ok xs" by simp_all
  from apply_op_inv[OF Cons.prems(1) assms ok(1)] obtain T1 t1 where
    1: "apply_op T x = Some (Inr T1)" "invariants lt T1 t1" by blast
  from Cons.IH[OF 1(2) ok(2)] show ?case by (simp add: 1(1))
qed

lemma length_addrs_inorder: "length (addrs t) = length (inorder t)"
  by (induction t) auto

lemma lookup_eqv: "lookup lt v t = Some a \<Longrightarrow> \<exists>x\<in>set (inorder t). eqv lt v x"
  by (induction t) (auto simp: eqv_def split: if_splits)

lemma inorder_ins_mono: "set (inorder t) \<subseteq> set (inorder (ins lt v z t))"
  by (induction t) auto

lemma ins_list_sets:
  assumes irr: "\<And>u. \<not> lt u u"
  shows "set (inorder t) \<subseteq> set (inorder (ins_list lt vs z t)) \<and>
         set (inorder (ins_list lt vs z t)) \<subseteq> set (inorder t) \<union> set vs \<and>
         (\<forall>v\<in>set vs. \<exists>x\<in>set (inorder (ins_list lt vs z t)). eqv lt v x)"
proof (induction vs arbitrary: z t)
  case Nil
  then show ?case by simp
next
  case (Cons v vs)
  show ?case
  proof (cases "lookup lt v t")
    case None
    let ?t1 = "ins lt v z t"
    from Cons.IH[of ?t1 "Suc z"] have
      1: "set (inorder ?t1) \<subseteq> set (inorder (ins_list lt vs (Suc z) ?t1))"
      and 2: "set (inorder (ins_list lt vs (Suc z) ?t1)) \<subseteq> set (inorder ?t1) \<union> set vs"
      and 3: "\<forall>u\<in>set vs. \<exists>x\<in>set (inorder (ins_list lt vs (Suc z) ?t1)). eqv lt u x"
      by simp_all
    have s: "set (inorder ?t1) = insert v (set (inorder t))" by (rule set_inorder_ins_absent[OF None])
    have "eqv lt v v" using irr by (simp add: eqv_def)
    then have "\<exists>x\<in>set (inorder (ins_list lt vs (Suc z) ?t1)). eqv lt v x" using 1 s by blast
    then show ?thesis using 1 2 3 s None by auto
  next
    case (Some a)
    from Cons.IH[of t z] have
      1: "set (inorder t) \<subseteq> set (inorder (ins_list lt vs z t))"
      and 2: "set (inorder (ins_list lt vs z t)) \<subseteq> set (inorder t) \<union> set vs"
      and 3: "\<forall>u\<in>set vs. \<exists>x\<in>set (inorder (ins_list lt vs z t)). eqv lt u x"
      by simp_all
    from lookup_eqv[OF Some] 1 have "\<exists>x\<in>set (inorder (ins_list lt vs z t)). eqv lt v x" by blast
    then show ?thesis using 1 2 3 Some by auto
  qed
qed

lemma lt_eqv:
  assumes "transp lt" "transp (eqv lt)"
  shows "lt a b \<Longrightarrow> eqv lt b c \<Longrightarrow> lt a c" and "lt a b \<Longrightarrow> eqv lt a c \<Longrightarrow> lt c b"
proof -
  have sym: "eqv lt x y \<Longrightarrow> eqv lt y x" for x y by (simp add: eqv_def)
  show "lt a c" if "lt a b" "eqv lt b c"
  proof (rule ccontr)
    assume n: "\<not> lt a c"
    show False
    proof (cases "lt c a")
      case True
      with that(1) transpD[OF assms(1)] have "lt c b" by blast
      with that(2) show False by (simp add: eqv_def)
    next
      case False
      with n have "eqv lt a c" by (simp add: eqv_def)
      with sym[OF that(2)] transpD[OF assms(2)] have "eqv lt a b" by blast
      with that(1) show False by (simp add: eqv_def)
    qed
  qed
  show "lt c b" if "lt a b" "eqv lt a c"
  proof (rule ccontr)
    assume n: "\<not> lt c b"
    show False
    proof (cases "lt b c")
      case True
      with that(1) transpD[OF assms(1)] have "lt a c" by blast
      with that(2) show False by (simp add: eqv_def)
    next
      case False
      with n have "eqv lt c b" by (simp add: eqv_def)
      with that(2) transpD[OF assms(2)] have "eqv lt a b" by blast
      with that(1) show False by (simp add: eqv_def)
    qed
  qed
qed

lemma sorted_eqv_unique:
  assumes as: "asymp lt" and tr: "transp lt" and te: "transp (eqv lt)"
  shows "sorted_wrt lt xs \<Longrightarrow> sorted_wrt lt ys \<Longrightarrow>
         \<forall>x\<in>set xs. \<exists>y\<in>set ys. eqv lt x y \<Longrightarrow> \<forall>y\<in>set ys. \<exists>x\<in>set xs. eqv lt y x \<Longrightarrow>
         list_all2 (eqv lt) xs ys"
proof (induction xs arbitrary: ys)
  case Nil
  then show ?case by (cases ys) auto
next
  case (Cons x xs)
  have sym: "eqv lt u w \<Longrightarrow> eqv lt w u" for u w by (simp add: eqv_def)
  from Cons.prems(3) obtain y ys' where ys: "ys = y # ys'" by (cases ys) auto
  from Cons.prems(1) have sx: "sorted_wrt lt xs" and xlt: "\<forall>u\<in>set xs. lt x u" by simp_all
  from Cons.prems(2) ys have sy: "sorted_wrt lt ys'" and ylt: "\<forall>u\<in>set ys'. lt y u" by simp_all
  have xy: "eqv lt x y"
  proof (rule ccontr)
    assume n: "\<not> eqv lt x y"
    from Cons.prems(3) ys n obtain y1 where y1: "y1 \<in> set ys'" "eqv lt x y1" by auto
    from Cons.prems(4) ys n sym obtain x1 where x1: "x1 \<in> set xs" "eqv lt y x1" by auto
    from ylt y1 have "lt y y1" by simp
    with lt_eqv(1)[OF tr te] sym[OF y1(2)] have "lt y x" by blast
    moreover from xlt x1 have "lt x x1" by simp
    with lt_eqv(1)[OF tr te] sym[OF x1(2)] have "lt x y" by blast
    ultimately show False using asympD[OF as] by blast
  qed
  have c1: "\<forall>u\<in>set xs. \<exists>w\<in>set ys'. eqv lt u w"
  proof
    fix u assume u: "u \<in> set xs"
    with Cons.prems(3) ys obtain w where w: "w = y \<or> w \<in> set ys'" "eqv lt u w" by auto
    have "w \<noteq> y"
    proof
      assume "w = y"
      with w(2) sym[OF xy] transpD[OF te] have "eqv lt u x" by blast
      moreover from xlt u have "lt x u" by simp
      ultimately show False by (simp add: eqv_def)
    qed
    with w show "\<exists>w\<in>set ys'. eqv lt u w" by blast
  qed
  have c2: "\<forall>w\<in>set ys'. \<exists>u\<in>set xs. eqv lt w u"
  proof
    fix w assume w: "w \<in> set ys'"
    with Cons.prems(4) ys obtain u where u: "u = x \<or> u \<in> set xs" "eqv lt w u" by auto
    have "u \<noteq> x"
    proof
      assume "u = x"
      with u(2) xy transpD[OF te] have "eqv lt w y" by blast
      moreover from ylt w have "lt y w" by simp
      ultimately show False by (simp add: eqv_def)
    qed
    with u show "\<exists>u\<in>set xs. eqv lt w u" by blast
  qed
  from Cons.IH[OF sx sy c1 c2] xy show ?case by (simp add: ys)
qed

section \<open>The claims\<close>

text \<open>
  C7. For every (sub)tree, \<open>Node.String()\<close> and \<open>Tree.String()\<close> return \<open>[\<close>, then the
  in-order values in the default formatting separated by single spaces, with no space
  before the closing \<open>]\<close>; an empty tree or a nil node gives exactly \<open>[]\<close>.
\<close>

theorem String_format:
  "(shape lt h p par t \<longrightarrow>
      Node_String fmt h p = Some (Inr (''['' @ spaced (map fmt (inorder t)) @ '']''))) \<and>
   (shape lt (heap T) (root T) None t \<longrightarrow>
      Tree_String fmt T = Some (Inr (''['' @ spaced (map fmt (inorder t)) @ '']''))) \<and>
   Node_String fmt h None = Some (Inr ''[]'') \<and>
   (root T = None \<longrightarrow> Tree_String fmt T = Some (Inr ''[]''))"
  using String_shape[of lt h p par t fmt] String_shape[of lt "heap T" "root T" None t fmt]
  by (simp add: Tree_String_def Node_String_def)

theorem String_format_witness:
  "shape (<) demo_heap (Some 2) (Some 0) (Fork (Fork Tip 3 6 (Fork Tip 5 7 Tip)) 2 8 (Fork Tip 4 9 Tip)) \<and>
   Node_String digit demo_heap (Some 2) = Some (Inr ''[6 7 8 9]'') \<and>
   shape (<) (heap demo) (root demo) None demo_tree \<and>
   Tree_String digit demo = Some (Inr ''[2 5 6 7 8 9]'') \<and>
   Node_String digit demo_heap None = Some (Inr ''[]'') \<and>
   root (New (<) store0 0) = None \<and> Tree_String digit (New (<) store0 0) = Some (Inr ''[]'')"
proof -
  have s: "shape (<) demo_heap (Some 2) (Some 0)
             (Fork (Fork Tip 3 6 (Fork Tip 5 7 Tip)) 2 8 (Fork Tip 4 9 Tip))"
    by (simp add: demo_heap_def)
  have r: "root (New (<) store0 0) = None" by (simp add: New_def)
  from String_format[where lt = "(<)" and h = demo_heap and p = "Some 2" and par = "Some 0"
      and t = "Fork (Fork Tip 3 6 (Fork Tip 5 7 Tip)) 2 8 (Fork Tip 4 9 Tip)" and fmt = digit
      and T = "New (<) store0 0"] s r
  have 1: "Node_String digit demo_heap (Some 2) = Some (Inr ''[6 7 8 9]'')"
    "Node_String digit demo_heap None = Some (Inr ''[]'')"
    "Tree_String digit (New (<) store0 0) = Some (Inr ''[]'')"
    by (simp_all add: digit_def)
  from String_format[where lt = "(<)" and T = demo and t = demo_tree and fmt = digit] demo_shape
  have 2: "Tree_String digit demo = Some (Inr ''[2 5 6 7 8 9]'')"
    by (simp add: digit_def demo_tree_def)
  from s r 1 2 demo_shape show ?thesis by (intro conjI)
qed

text \<open>
  C9. On an empty tree (root nil) the queries return the empty default and do not fault:
  \<open>Find\<close>, \<open>Min\<close> and \<open>Max\<close> return nil, \<open>Contains\<close> returns false and \<open>Height\<close>
  returns 0.
\<close>

theorem empty_tree_queries:
  "root t = None \<Longrightarrow>
     Tree_Find t v = Some None \<and> Tree_Min t = Some None \<and> Tree_Max t = Some None \<and>
     Tree_Contains t v = Some False \<and> Tree_Height t = Some 0"
  by (simp add: Tree_Find_def Tree_Min_def Tree_Max_def Tree_Contains_def Tree_Height_def
      Node_Find.simps Node_Min_def Node_Max_def Node_Height.simps)

theorem empty_tree_queries_witness:
  "root (New (<) store0 0) = None \<and>
   Tree_Find (New (<) store0 0) 5 = Some None \<and> Tree_Min (New (<) store0 0) = Some None \<and>
   Tree_Max (New (<) store0 0) = Some None \<and>
   Tree_Contains (New (<) store0 0) 5 = Some False \<and> Tree_Height (New (<) store0 0) = Some 0"
  using empty_tree_queries [of "New (<) store0 0" 5] by (simp add: New_def)

text \<open>
  C10. \<open>Node.String()\<close> returns on every (sub)tree and its \<open>Truncate\<close> does not panic:
  a nil receiver gives \<open>[]\<close> with no truncation; for a non-nil receiver the walk has
  written the opening bracket and at least one value followed by a space, so the argument
  of \<open>Truncate\<close> is not negative and the call removes that last space.
\<close>

theorem String_total:
  "shape lt h p par t \<Longrightarrow>
     (\<exists>s. Node_String fmt h p = Some (Inr s)) \<and>
     (p = None \<longrightarrow> Node_String fmt h p = Some (Inr ''[]'')) \<and>
     (p \<noteq> None \<longrightarrow>
        (\<exists>pre v. walk fmt h p ''['' = Some (''['' @ pre @ fmt v @ '' '') \<and>
           0 \<le> int (length (''['' @ pre @ fmt v @ '' '')) - 1 \<and>
           Truncate (int (length (''['' @ pre @ fmt v @ '' '')) - 1) (''['' @ pre @ fmt v @ '' '')
             = Inr (''['' @ pre @ fmt v)))"
proof (intro conjI impI)
  assume sh: "shape lt h p par t"
  show "\<exists>s. Node_String fmt h p = Some (Inr s)"
    using String_shape[OF sh] by blast
  show "Node_String fmt h p = Some (Inr ''[]'')" if "p = None"
    using that by (simp add: Node_String_def)
  show "\<exists>pre v. walk fmt h p ''['' = Some (''['' @ pre @ fmt v @ '' '') \<and>
           0 \<le> int (length (''['' @ pre @ fmt v @ '' '')) - 1 \<and>
           Truncate (int (length (''['' @ pre @ fmt v @ '' '')) - 1) (''['' @ pre @ fmt v @ '' '')
             = Inr (''['' @ pre @ fmt v)" if "p \<noteq> None"
  proof -
    from that sh have "inorder t \<noteq> []" by (cases t) simp_all
    then obtain xs x where xs: "inorder t = xs @ [x]"
      by (metis rev_exhaust)
    have "walk fmt h p ''['' = Some (''['' @ concat (map (\<lambda>v. fmt v @ '' '') xs) @ fmt x @ '' '')"
      using walk_shape[OF sh, of fmt "''[''"] by (simp add: xs)
    moreover have "Truncate (int (length (''['' @ concat (map (\<lambda>v. fmt v @ '' '') xs) @ fmt x @ '' '')) - 1)
        (''['' @ concat (map (\<lambda>v. fmt v @ '' '') xs) @ fmt x @ '' '') =
        Inr (''['' @ concat (map (\<lambda>v. fmt v @ '' '') xs) @ fmt x)"
      using Truncate_last[of "''['' @ concat (map (\<lambda>v. fmt v @ '' '') xs) @ fmt x" "CHR '' ''"]
      by simp
    ultimately show ?thesis by fastforce
  qed
qed

theorem String_total_witness:
  "shape (<) (heap demo) (root demo) None demo_tree \<and>
   (\<exists>s. Node_String digit (heap demo) (root demo) = Some (Inr s)) \<and>
   root demo \<noteq> None \<and>
   (\<exists>pre v. walk digit (heap demo) (root demo) ''['' = Some (''['' @ pre @ digit v @ '' '') \<and>
      Truncate (int (length (''['' @ pre @ digit v @ '' '')) - 1) (''['' @ pre @ digit v @ '' '')
        = Inr (''['' @ pre @ digit v)) \<and>
   shape (<) store0 None None Tip \<and> Node_String digit store0 None = Some (Inr ''[]'')"
proof -
  have n: "root demo \<noteq> None" by (simp add: demo_def)
  have e: "shape (<) store0 None None Tip" by simp
  from String_total[OF demo_shape, of digit] n
  have 1: "\<exists>s. Node_String digit (heap demo) (root demo) = Some (Inr s)"
    "\<exists>pre v. walk digit (heap demo) (root demo) ''['' = Some (''['' @ pre @ digit v @ '' '') \<and>
      Truncate (int (length (''['' @ pre @ digit v @ '' '')) - 1) (''['' @ pre @ digit v @ '' '')
        = Inr (''['' @ pre @ digit v)"
    by blast+
  from String_total[OF e, of digit]
  have 2: "Node_String digit store0 None = Some (Inr ''[]'')" by blast
  from demo_shape n e 1 2 show ?thesis by (intro conjI)
qed

text \<open>
  C3. For a tree that satisfies the invariants, with a transitive comparator: if the tree
  holds a value comparator-equal to \<open>v\<close>, \<open>Insert(v)\<close> returns a node of the tree
  with such a value and the state is unchanged. Otherwise the descent ends at nil with
  \<open>n\<close> the last node visited; \<open>Insert(v)\<close> returns a new node (the fresh address)
  with value \<open>v\<close>, no children and parent \<open>n\<close>; the new node becomes the root if
  \<open>n\<close> is nil, else the left child of \<open>n\<close> if \<open>less(v, n.val)\<close> and the right
  child otherwise, in a slot that was nil; no other node changes; \<open>size\<close> grows by one.
\<close>

theorem Insert_spec:
  assumes "invariants lt T t" "transp lt"
  shows "((\<exists>x\<in>set (inorder t). eqv lt v x) \<longrightarrow>
            (\<exists>a. Insert T v = Some (a, T) \<and> a \<in> set (addrs t) \<and> eqv lt v (val (heap T a)))) \<and>
         (\<not> (\<exists>x\<in>set (inorder t). eqv lt v x) \<longrightarrow>
            (\<exists>T' n. Insert_loop (lessFn' T) (heap T) v None (root T) = Some (n, None) \<and>
               Insert T v = Some (fresh T, T') \<and>
               fresh T \<notin> set (addrs t) \<and>
               heap T' (fresh T) = \<lparr>val = v, parent = n, left = None, right = None, lessFn = lessFn' T\<rparr> \<and>
               (case n of
                  None \<Rightarrow> root T = None \<and> root T' = Some (fresh T)
                | Some a \<Rightarrow> root T' = root T \<and> a \<in> set (addrs t) \<and>
                    (if lessFn' T v (val (heap T a))
                     then left (heap T a) = None \<and> heap T' a = (heap T a)\<lparr>left := Some (fresh T)\<rparr>
                     else right (heap T a) = None \<and> heap T' a = (heap T a)\<lparr>right := Some (fresh T)\<rparr>)) \<and>
               (\<forall>b. b \<noteq> fresh T \<longrightarrow> n \<noteq> Some b \<longrightarrow> heap T' b = heap T b) \<and>
               size' T' = size' T + 1 \<and> lessFn' T' = lessFn' T \<and>
               invariants lt T' (ins lt v (fresh T) t) \<and>
               set (inorder (ins lt v (fresh T) t)) = insert v (set (inorder t))))"
proof (intro conjI impI)
  from assms(1) have sh: "shape lt (heap T) (root T) None t" and b: "bst lt t"
    and lf: "lessFn' T = lt" and fr: "\<forall>a\<in>set (addrs t). a < fresh T"
    by (simp_all add: invariants_def list_all_iff)
  {
    assume "\<exists>x\<in>set (inorder t). eqv lt v x"
    then obtain x where "x \<in> set (inorder t)" "eqv lt v x" by blast
    from lookup_complete[OF assms(2) b this] obtain a where a: "lookup lt v t = Some a" by blast
    show "\<exists>a. Insert T v = Some (a, T) \<and> a \<in> set (addrs t) \<and> eqv lt v (val (heap T a))"
      using Insert_found[OF sh lf a] lookup_sound[OF sh a] by blast
  }
  {
    assume ne: "\<not> (\<exists>x\<in>set (inorder t). eqv lt v x)"
    have nf: "lookup lt v t = None"
    proof (rule ccontr)
      assume "lookup lt v t \<noteq> None"
      then obtain a where a: "lookup lt v t = Some a" by blast
      from lookup_sound[OF sh a] val_in_inorder[OF sh] have "val (heap T a) \<in> set (inorder t)"
        "eqv lt v (val (heap T a))" by auto
      with ne show False by blast
    qed
    from Insert_absent[OF assms(1) nf, of ] obtain T' where T':
      "Insert T v = Some (fresh T, T')" "invariants lt T' (ins lt v (fresh T) t)"
      "size' T' = size' T + 1"
      "heap T' (fresh T) = \<lparr>val = v, parent = fst (descend lt v None t), left = None, right = None, lessFn = lt\<rparr>"
      "\<forall>b. b \<noteq> fresh T \<longrightarrow> fst (descend lt v None t) \<noteq> Some b \<longrightarrow> heap T' b = heap T b"
      "case fst (descend lt v None t) of
        None \<Rightarrow> root T = None \<and> root T' = Some (fresh T)
      | Some a \<Rightarrow> root T' = root T \<and> a \<in> set (addrs t) \<and>
          (if lt v (val (heap T a))
           then left (heap T a) = None \<and> heap T' a = (heap T a)\<lparr>left := Some (fresh T)\<rparr>
           else right (heap T a) = None \<and> heap T' a = (heap T a)\<lparr>right := Some (fresh T)\<rparr>)"
      by blast
    have loop: "Insert_loop (lessFn' T) (heap T) v None (root T) = Some (fst (descend lt v None t), None)"
      using Insert_loop_shape[OF sh, of v None] snd_descend[of lt v None t] nf lf
      by (cases "descend lt v None t") simp
    have lf': "lessFn' T' = lessFn' T" using T'(2) lf by (simp add: invariants_def)
    have "fresh T \<notin> set (addrs t)" using fr by auto
    then show "\<exists>T' n. Insert_loop (lessFn' T) (heap T) v None (root T) = Some (n, None) \<and>
               Insert T v = Some (fresh T, T') \<and>
               fresh T \<notin> set (addrs t) \<and>
               heap T' (fresh T) = \<lparr>val = v, parent = n, left = None, right = None, lessFn = lessFn' T\<rparr> \<and>
               (case n of
                  None \<Rightarrow> root T = None \<and> root T' = Some (fresh T)
                | Some a \<Rightarrow> root T' = root T \<and> a \<in> set (addrs t) \<and>
                    (if lessFn' T v (val (heap T a))
                     then left (heap T a) = None \<and> heap T' a = (heap T a)\<lparr>left := Some (fresh T)\<rparr>
                     else right (heap T a) = None \<and> heap T' a = (heap T a)\<lparr>right := Some (fresh T)\<rparr>)) \<and>
               (\<forall>b. b \<noteq> fresh T \<longrightarrow> n \<noteq> Some b \<longrightarrow> heap T' b = heap T b) \<and>
               size' T' = size' T + 1 \<and> lessFn' T' = lessFn' T \<and>
               invariants lt T' (ins lt v (fresh T) t) \<and>
               set (inorder (ins lt v (fresh T) t)) = insert v (set (inorder t))"
      using T' loop lf lf' set_inorder_ins_absent[OF nf, of "fresh T"]
      unfolding lf
      by (intro exI[of _ T'] exI[of _ "fst (descend lt v None t)"]) simp
  }
qed

theorem Insert_spec_witness:
  "invariants (<) demo demo_tree \<and> transp ((<) :: int \<Rightarrow> int \<Rightarrow> bool) \<and>
   (\<exists>x\<in>set (inorder demo_tree). eqv (<) 7 x) \<and>
   (\<exists>a. Insert demo 7 = Some (a, demo)) \<and>
   \<not> (\<exists>x\<in>set (inorder demo_tree). eqv (<) 3 x) \<and>
   (\<exists>T'. Insert demo 3 = Some (6, T') \<and> size' T' = 7)"
proof -
  have e: "\<exists>x\<in>set (inorder demo_tree). eqv (<) (7::int) x"
    by (simp add: demo_tree_def eqv_def)
  have n: "\<not> (\<exists>x\<in>set (inorder demo_tree). eqv (<) (3::int) x)"
    by (simp add: demo_tree_def eqv_def)
  have t: "transp ((<) :: int \<Rightarrow> int \<Rightarrow> bool)" by simp
  have f: "fresh demo = 6" "size' demo = 6" by (simp_all add: demo_def)
  show ?thesis
    using Insert_spec[OF demo_invariants t, of 7] Insert_spec[OF demo_invariants t, of 3] e n
    unfolding f by (simp add: demo_invariants) blast
qed

text \<open>
  C8, as amended. \<open>Height()\<close> is 0 on a nil node and \<open>1 + max\<close> of the heights of the
  two children otherwise, so a one-node tree has height 1. For an input slice of length
  \<open>n\<close> that is strictly sorted under the comparator, either ascending (every element
  less than all later ones, the comparator asymmetric) or descending (every element less
  than all earlier ones), so that no two elements are equal, the tree that \<open>Init\<close>
  builds from an empty tree has height exactly \<open>n\<close>.
\<close>

theorem Height_convention:
  "Node_Height h None = Some 0 \<and>
   (shape lt h (Some a) par t \<longrightarrow>
      (\<exists>hl hr. Node_Height h (left (h a)) = Some hl \<and> Node_Height h (right (h a)) = Some hr \<and>
         Node_Height h (Some a) = Some (1 + max hl hr))) \<and>
   (shape lt h (Some a) par (Fork Tip a x Tip) \<longrightarrow> Node_Height h (Some a) = Some 1) \<and>
   (asymp lt \<and> sorted_wrt lt vs \<longrightarrow>
      (\<exists>T'. Init (New lt h0 f) vs = Some T' \<and> Tree_Height T' = Some (int (length vs)))) \<and>
   (sorted_wrt (\<lambda>x y. lt y x) vs \<longrightarrow>
      (\<exists>T'. Init (New lt h0 f) vs = Some T' \<and> Tree_Height T' = Some (int (length vs))))"
proof (intro conjI impI)
  show "Node_Height h None = Some 0" by (simp add: Node_Height.simps)
  show "Node_Height h (Some a) = Some 1" if "shape lt h (Some a) par (Fork Tip a x Tip)"
    using Height_shape[OF that] by simp
  show "\<exists>hl hr. Node_Height h (left (h a)) = Some hl \<and> Node_Height h (right (h a)) = Some hr \<and>
         Node_Height h (Some a) = Some (1 + max hl hr)" if sh: "shape lt h (Some a) par t"
  proof (cases t)
    case Tip
    with sh show ?thesis by simp
  next
    case (Fork l b y r)
    with sh have "shape lt h (left (h a)) (Some a) l" "shape lt h (right (h a)) (Some a) r"
      by simp_all
    from Height_shape[OF this(1)] Height_shape[OF this(2)] Height_shape[OF sh]
    show ?thesis by (simp add: Fork)
  qed
  show "\<exists>T'. Init (New lt h0 f) vs = Some T' \<and> Tree_Height T' = Some (int (length vs))"
    if "asymp lt \<and> sorted_wrt lt vs"
  proof -
    from that have asym: "asymp lt" and s: "sorted_wrt lt vs" by simp_all
    from Init_inv[OF New_invariants, of lt h0 f vs] obtain T' where
      T': "Init (New lt h0 f) vs = Some T'"
      "invariants lt T' (ins_list lt vs (fresh (New lt h0 f)) Tip)" by blast
    let ?t = "ins_list lt vs (fresh (New lt h0 f)) Tip"
    from rchain_ins_list[OF asym, of Tip vs "fresh (New lt h0 f)"] s
    have "rchain ?t" "inorder ?t = vs" by simp_all
    with rchain_height[of ?t] have "height ?t = int (length vs)" by simp
    moreover from T'(2) have "shape lt (heap T') (root T') None ?t" by (simp add: invariants_def)
    ultimately show ?thesis using T'(1) Height_shape by (fastforce simp: Tree_Height_def)
  qed
  show "\<exists>T'. Init (New lt h0 f) vs = Some T' \<and> Tree_Height T' = Some (int (length vs))"
    if s: "sorted_wrt (\<lambda>x y. lt y x) vs"
  proof -
    from Init_inv[OF New_invariants, of lt h0 f vs] obtain T' where
      T': "Init (New lt h0 f) vs = Some T'"
      "invariants lt T' (ins_list lt vs (fresh (New lt h0 f)) Tip)" by blast
    let ?t = "ins_list lt vs (fresh (New lt h0 f)) Tip"
    from lchain_ins_list[of Tip lt vs "fresh (New lt h0 f)"] s
    have "lchain ?t" "inorder ?t = rev vs" by simp_all
    with lchain_height[of ?t] have "height ?t = int (length vs)" by simp
    moreover from T'(2) have "shape lt (heap T') (root T') None ?t" by (simp add: invariants_def)
    ultimately show ?thesis using T'(1) Height_shape by (fastforce simp: Tree_Height_def)
  qed
qed

theorem Height_convention_witness:
  "shape (<) demo_heap (Some 1) (Some 0) (Fork Tip 1 2 Tip) \<and>
   Node_Height demo_heap (Some 1) = Some 1 \<and>
   asymp ((<) :: int \<Rightarrow> int \<Rightarrow> bool) \<and> sorted_wrt (<) [1, 2, 3 :: int] \<and>
   (\<exists>T'. Init (New (<) store0 0) [1, 2, 3 :: int] = Some T' \<and>
      Tree_Height T' = Some (int (length [1, 2, 3 :: int]))) \<and>
   sorted_wrt (\<lambda>x y. y < x) [3, 2, 1 :: int] \<and>
   (\<exists>T'. Init (New (<) store0 0) [3, 2, 1 :: int] = Some T' \<and>
      Tree_Height T' = Some (int (length [3, 2, 1 :: int])))"
proof -
  have s: "shape (<) demo_heap (Some 1) (Some 0) (Fork Tip 1 2 Tip)"
    by (simp add: demo_heap_def)
  have a: "asymp ((<) :: int \<Rightarrow> int \<Rightarrow> bool)" by simp
  have o: "sorted_wrt (<) [1, 2, 3 :: int]" by simp
  have o': "sorted_wrt (\<lambda>x y. y < x) [3, 2, 1 :: int]" by simp
  from Height_convention[where h = demo_heap and lt = "(<)" and a = 1 and par = "Some 0"
      and t = "Fork Tip 1 2 Tip" and x = 2 and vs = "[1, 2, 3]" and h0 = store0 and f = 0] s a o
  have 1: "Node_Height demo_heap (Some 1) = Some 1"
    "\<exists>T'. Init (New (<) store0 0) [1, 2, 3 :: int] = Some T' \<and>
      Tree_Height T' = Some (int (length [1, 2, 3 :: int]))"
    by blast+
  from Height_convention[where lt = "(<)" and vs = "[3, 2, 1]" and h0 = store0 and f = 0] o'
  have 2: "\<exists>T'. Init (New (<) store0 0) [3, 2, 1 :: int] = Some T' \<and>
      Tree_Height T' = Some (int (length [3, 2, 1 :: int]))"
    by blast
  from s a o o' 1 2 show ?thesis by (intro conjI)
qed

text \<open>
  C8 as stated fails for a sorted slice with a repeated element: \<open>[1, 1]\<close> is sorted
  and has length 2, and the tree built from it has one node and height 1.
\<close>

theorem Height_sorted_counterexample:
  "sorted [1, 1 :: int] \<and>
   Option.bind (Init (New (<) store0 0) [1, 1]) Tree_Height = Some 1 \<and>
   int (length [1, 1 :: int]) = 2"
  by (simp add: Insert_def Insert_loop.simps New_def Let_def Tree_Height_def Node_Height.simps maxInt_def)

text \<open>
  C5. For a non-empty tree with the BST property and parent consistency (comparator
  asymmetric and transitive): \<open>Min()\<close> is the first node in order; from it, repeated
  \<open>Next()\<close> visits exactly the nodes of the tree in order, each once, their values
  strictly ascending, and \<open>Next()\<close> of the last one is nil. Symmetrically, from
  \<open>Max()\<close> repeated \<open>Prev()\<close> visits the nodes in reverse order, values strictly
  descending, and \<open>Prev()\<close> of the first node is nil.
\<close>

theorem Next_Prev_traversal:
  assumes "shape lt (heap T) (root T) None t" "bst lt t" "asymp lt" "transp lt" "t \<noteq> Tip"
  shows "Tree_Min T = Some (Some (hd (addrs t))) \<and>
         iter_Next (heap T) (Some (hd (addrs t))) = Some (Inr (addrs t)) \<and>
         Next (heap T) (Some (last (addrs t))) = Some (Inr None) \<and>
         Tree_Max T = Some (Some (last (addrs t))) \<and>
         iter_Prev (heap T) (Some (last (addrs t))) = Some (Inr (rev (addrs t))) \<and>
         Prev (heap T) (Some (hd (addrs t))) = Some (Inr None) \<and>
         distinct (addrs t) \<and>
         map (\<lambda>a. val (heap T a)) (addrs t) = inorder t \<and>
         sorted_wrt lt (inorder t) \<and>
         map (\<lambda>a. val (heap T a)) (rev (addrs t)) = rev (inorder t) \<and>
         sorted_wrt (\<lambda>x y. lt y x) (rev (inorder t))"
proof -
  let ?h = "heap T"
  from assms(1,5) obtain r where r: "root T = Some r" by (cases t) simp_all
  have sh: "shape lt ?h (Some r) None t" using assms(1) r by simp
  have d: "distinct (addrs t)" by (rule distinct_addrs[OF assms(1,2,3)])
  have ne: "addrs t \<noteq> []" "rev (addrs t) \<noteq> []" using assms(5) by (simp_all add: addrs_Nil_iff)
  have fn: "follows (\<lambda>a. Next ?h (Some a)) (addrs t) None"
    by (rule Next_follows[OF sh d]) (simp add: Next_loop.simps)
  have fp: "follows (\<lambda>a. Prev ?h (Some a)) (rev (addrs t)) None"
    by (rule Prev_follows[OF sh d]) (simp add: Prev_loop.simps)
  have "Tree_Min T = Some (Some (hd (addrs t)))"
    using Min_loop_shape[OF sh] by (simp add: Tree_Min_def Node_Min_def r)
  moreover have "Tree_Max T = Some (Some (last (addrs t)))"
    using Max_loop_shape[OF sh] by (simp add: Tree_Max_def Node_Max_def r)
  moreover have "iter_Next ?h (Some (hd (addrs t))) = Some (Inr (addrs t))"
    by (rule iter_Next_follows[OF fn ne(1)])
  moreover have "iter_Prev ?h (Some (last (addrs t))) = Some (Inr (rev (addrs t)))"
    using iter_Prev_follows[OF fp ne(2)] ne(1) by (simp add: hd_rev)
  moreover have "Next ?h (Some (last (addrs t))) = Some (Inr None)"
    using follows_last[OF fn ne(1)] .
  moreover have "Prev ?h (Some (hd (addrs t))) = Some (Inr None)"
    using follows_last[OF fp ne(2)] ne(1) by (simp add: last_rev)
  moreover have m: "map (\<lambda>a. val (?h a)) (addrs t) = inorder t"
    by (rule map_val_addrs[OF assms(1)])
  moreover have "map (\<lambda>a. val (?h a)) (rev (addrs t)) = rev (inorder t)"
    using arg_cong[OF m, of rev] by (simp only: rev_map)
  moreover have s: "sorted_wrt lt (inorder t)" by (rule sorted_inorder[OF assms(4,2)])
  moreover have "sorted_wrt (\<lambda>x y. lt y x) (rev (inorder t))"
    using s by (simp add: sorted_wrt_rev)
  ultimately show ?thesis using d by simp
qed

theorem Next_Prev_traversal_witness:
  "shape (<) (heap demo) (root demo) None demo_tree \<and> bst (<) demo_tree \<and>
   asymp ((<) :: int \<Rightarrow> int \<Rightarrow> bool) \<and> transp ((<) :: int \<Rightarrow> int \<Rightarrow> bool) \<and>
   demo_tree \<noteq> Tip \<and>
   Tree_Min demo = Some (Some 1) \<and>
   iter_Next (heap demo) (Some 1) = Some (Inr [1, 0, 3, 5, 2, 4]) \<and>
   map (\<lambda>a. val (heap demo a)) [1, 0, 3, 5, 2, 4] = [2, 5, 6, 7, 8, 9] \<and>
   Tree_Max demo = Some (Some 4) \<and>
   iter_Prev (heap demo) (Some 4) = Some (Inr [4, 2, 5, 3, 0, 1])"
proof -
  have a: "asymp ((<) :: int \<Rightarrow> int \<Rightarrow> bool)" and t: "transp ((<) :: int \<Rightarrow> int \<Rightarrow> bool)"
    by simp_all
  have n: "demo_tree \<noteq> Tip" by (simp add: demo_tree_def)
  have l: "addrs demo_tree = [1, 0, 3, 5, 2, 4]" "inorder demo_tree = [2, 5, 6, 7, 8, 9]"
    by (simp_all add: demo_tree_def)
  from Next_Prev_traversal[OF demo_shape demo_bst a t n] demo_shape demo_bst a t n
  show ?thesis unfolding l by simp
qed

text \<open>
  C2. For a tree with the BST property and parent consistency (comparator asymmetric) and
  a node \<open>n\<close> of it with both children, \<open>Delete\<close> of the value of \<open>n\<close> returns
  true, and the store then holds a tree whose in-order value sequence is the old one with
  exactly that value taken out: every other value, those of the right subtree of \<open>n\<close>
  among them, is still there, wherever the successor of \<open>n\<close> lay. With a transitive
  comparator the BST property holds again.
\<close>

theorem Delete_two_children:
  assumes "shape lt (heap T) (root T) None t" "bst lt t" "asymp lt"
    "n \<in> set (addrs t)" "left (heap T n) \<noteq> None" "right (heap T n) \<noteq> None"
  shows "\<exists>T' t'. Delete T (val (heap T n)) = Some (Inr (True, T')) \<and>
           shape lt (heap T') (root T') None t' \<and>
           (\<exists>xs ys. inorder t = xs @ val (heap T n) # ys \<and> inorder t' = xs @ ys) \<and>
           val (heap T n) \<notin> set (inorder t') \<and>
           (\<forall>x\<in>set (inorder t). x \<noteq> val (heap T n) \<longrightarrow> x \<in> set (inorder t')) \<and>
           (transp lt \<longrightarrow> bst lt t')"
proof -
  let ?v = "val (heap T n)"
  have d: "distinct (addrs t)" by (rule distinct_addrs[OF assms(1,2,3)])
  have dv: "distinct (inorder t)" by (rule distinct_inorder[OF assms(3,2)])
  have lk: "lookup lt ?v t = Some n" by (rule lookup_self[OF assms(3,1,2) d assms(4)])
  from Delete_found[OF assms(1) d lk] obtain T' where
    T': "Delete T ?v = Some (Inr (True, T'))" "shape lt (heap T') (root T') None (remove n t)" by blast
  from inorder_remove[OF assms(1) d assms(4)] obtain xs ys where
    io: "inorder t = xs @ ?v # ys" "inorder (remove n t) = xs @ ys" by blast
  have nin: "?v \<notin> set (inorder (remove n t))" using dv io by auto
  have keep: "\<forall>x\<in>set (inorder t). x \<noteq> ?v \<longrightarrow> x \<in> set (inorder (remove n t))"
    using io by auto
  have "transp lt \<longrightarrow> bst lt (remove n t)" using bst_remove[OF _ assms(2)] by blast
  with T' io nin keep show ?thesis by blast
qed

theorem Delete_two_children_witness:
  "shape (<) (heap demo) (root demo) None demo_tree \<and> bst (<) demo_tree \<and>
   asymp ((<) :: int \<Rightarrow> int \<Rightarrow> bool) \<and> 0 \<in> set (addrs demo_tree) \<and>
   left (heap demo 0) \<noteq> None \<and> right (heap demo 0) \<noteq> None \<and> val (heap demo 0) = 5 \<and>
   transp ((<) :: int \<Rightarrow> int \<Rightarrow> bool) \<and>
   (\<exists>T' t'. Delete demo 5 = Some (Inr (True, T')) \<and> shape (<) (heap T') (root T') None t' \<and>
      inorder t' = [2, 6, 7, 8, 9] \<and> bst (<) t')"
proof -
  have a: "asymp ((<) :: int \<Rightarrow> int \<Rightarrow> bool)" by simp
  have n: "0 \<in> set (addrs demo_tree)" by (simp add: demo_tree_def)
  have c: "left (heap demo 0) \<noteq> None" "right (heap demo 0) \<noteq> None"
    by (simp_all add: demo_def demo_heap_def)
  have v: "val (heap demo 0) = 5" by (simp add: demo_def demo_heap_def)
  have io: "inorder demo_tree = [2, 5, 6, 7, 8, 9]" by (simp add: demo_tree_def)
  from Delete_two_children[OF demo_shape demo_bst a n c] obtain T' t' xs ys where
    1: "Delete demo 5 = Some (Inr (True, T'))" "shape (<) (heap T') (root T') None t'"
    and 2: "[2, 5, 6, 7, 8, 9] = xs @ 5 # ys" "inorder t' = xs @ ys"
    and 3: "transp ((<) :: int \<Rightarrow> int \<Rightarrow> bool) \<longrightarrow> bst (<) t'"
    unfolding v io by blast
  have t: "transp ((<) :: int \<Rightarrow> int \<Rightarrow> bool)" by simp
  with 3 have b: "bst (<) t'" by simp
  from 2(1) have "xs = [2] \<and> ys = [6, 7, 8, 9]"
    by (auto simp: Cons_eq_append_conv)
  with 2(2) have "inorder t' = [2, 6, 7, 8, 9]" by simp
  with 1 b t demo_shape demo_bst a n c v show ?thesis by blast
qed

text \<open>
  C4. For a tree that satisfies the invariants, under a comparator that is transitive and
  whose equality is transitive: \<open>Delete(v)\<close> returns true if and only if the tree holds
  a value comparator-equal to \<open>v\<close>; when it returns false the state is unchanged; when
  it returns true, \<open>size\<close> is one less, the tree has one value less and satisfies the
  invariants, and a second \<open>Delete(v)\<close> returns false and changes nothing.
\<close>

theorem Delete_spec:
  assumes "invariants lt T t" "transp lt" "transp (eqv lt)"
  shows "\<exists>b T'. Delete T v = Some (Inr (b, T')) \<and>
           (b \<longleftrightarrow> (\<exists>x\<in>set (inorder t). eqv lt v x)) \<and>
           (\<not> b \<longrightarrow> T' = T) \<and>
           (b \<longrightarrow> size' T' = size' T - 1 \<and> Delete T' v = Some (Inr (False, T')) \<and>
              (\<exists>t'. invariants lt T' t' \<and> length (inorder t') + 1 = length (inorder t)))"
proof -
  from assms(1) have sh: "shape lt (heap T) (root T) None t" and b: "bst lt t"
    and d: "distinct (addrs t)"
    by (simp_all add: invariants_def)
  have sym: "eqv lt x y \<Longrightarrow> eqv lt y x" for x y by (simp add: eqv_def)
  show ?thesis
  proof (cases "lookup lt v t")
    case None
    have "\<not> (\<exists>x\<in>set (inorder t). eqv lt v x)"
      using lookup_complete[OF assms(2) b] None by blast
    then show ?thesis using Delete_absent[OF sh None] by auto
  next
    case (Some n)
    from lookup_sound[OF sh Some] have n: "n \<in> set (addrs t)" and e: "eqv lt v (val (heap T n))"
      by simp_all
    have ex: "\<exists>x\<in>set (inorder t). eqv lt v x" using val_in_inorder[OF sh n] e by blast
    from Delete_found[OF sh d Some] obtain T' where T':
      "Delete T v = Some (Inr (True, T'))" "shape lt (heap T') (root T') None (remove n t)"
      "size' T' = size' T - 1" by blast
    from Delete_inv[OF assms(1,2), of v] T'(1) Some have inv: "invariants lt T' (remove n t)" by simp
    from inorder_remove[OF sh d n] obtain xs ys where
      io: "inorder t = xs @ val (heap T n) # ys" "inorder (remove n t) = xs @ ys" by blast
    have srt: "sorted_wrt lt (inorder t)" by (rule sorted_inorder[OF assms(2) b])
    have none: "\<not> eqv lt v x" if "x \<in> set (inorder (remove n t))" for x
    proof
      assume "eqv lt v x"
      with e sym transpD[OF assms(3)] have "eqv lt x (val (heap T n))" by blast
      moreover from that srt have "lt x (val (heap T n)) \<or> lt (val (heap T n)) x"
        by (auto simp: io sorted_wrt_append)
      ultimately show False by (auto simp: eqv_def)
    qed
    have "lookup lt v (remove n t) = None"
    proof (rule ccontr)
      assume "lookup lt v (remove n t) \<noteq> None"
      then obtain m where m: "lookup lt v (remove n t) = Some m" by blast
      from lookup_sound[OF T'(2) m] val_in_inorder[OF T'(2)] none show False by blast
    qed
    from Delete_absent[OF T'(2) this] have "Delete T' v = Some (Inr (False, T'))" .
    moreover have "length (inorder (remove n t)) + 1 = length (inorder t)" by (simp add: io)
    ultimately show ?thesis using T' ex inv by blast
  qed
qed

theorem Delete_spec_witness:
  "invariants (<) demo demo_tree \<and> transp ((<) :: int \<Rightarrow> int \<Rightarrow> bool) \<and>
   transp (eqv ((<) :: int \<Rightarrow> int \<Rightarrow> bool)) \<and>
   (\<exists>x\<in>set (inorder demo_tree). eqv (<) 8 x) \<and>
   (\<exists>T'. Delete demo 8 = Some (Inr (True, T')) \<and> size' T' = 5 \<and> Delete T' 8 = Some (Inr (False, T'))) \<and>
   \<not> (\<exists>x\<in>set (inorder demo_tree). eqv (<) 4 x) \<and>
   Delete demo 4 = Some (Inr (False, demo))"
proof -
  have t: "transp ((<) :: int \<Rightarrow> int \<Rightarrow> bool)" by simp
  have e: "\<exists>x\<in>set (inorder demo_tree). eqv (<) (8::int) x"
    by (simp add: demo_tree_def eqv_def)
  have n: "\<not> (\<exists>x\<in>set (inorder demo_tree). eqv (<) (4::int) x)"
    by (simp add: demo_tree_def eqv_def)
  have s: "size' demo = 6" by (simp add: demo_def)
  from Delete_spec[OF demo_invariants t eqv_int, of 8] e s
  have 1: "\<exists>T'. Delete demo 8 = Some (Inr (True, T')) \<and> size' T' = 5 \<and> Delete T' 8 = Some (Inr (False, T'))"
    by auto
  from Delete_spec[OF demo_invariants t eqv_int, of 4] n
  have 2: "Delete demo 4 = Some (Inr (False, demo))" by auto
  from 1 2 e n t eqv_int demo_invariants show ?thesis by blast
qed

text \<open>
  C1. Start from the empty tree and run any sequence of \<open>Insert\<close>, \<open>Delete\<close>,
  \<open>Init\<close> and \<open>RandInit\<close> (comparator transitive, the draws of \<open>RandInit\<close> in
  range). After every operation, that is after every prefix of the sequence, the run has
  returned a state whose store holds a tree \<open>t\<close> with: the BST property; parent
  consistency, with the parent of the root nil; and \<open>size\<close> the number of nodes
  reachable from the root.
\<close>

theorem reachable_invariants:
  assumes "transp lt" "list_all draws_ok ops"
  shows "\<exists>T' t. run (New lt h0 f) (take k ops) = Some (Inr T') \<and>
           bst lt t \<and> shape lt (heap T') (root T') None t \<and>
           size' T' = int (length (addrs t)) \<and> invariants lt T' t"
proof -
  have "list_all draws_ok (take k ops)"
    using assms(2) by (auto simp: list_all_iff dest: in_set_takeD)
  from run_inv[OF assms(1) New_invariants this, of h0 f] obtain T' t where
    "run (New lt h0 f) (take k ops) = Some (Inr T')" "invariants lt T' t" by blast
  then show ?thesis by (auto simp: invariants_def)
qed

theorem reachable_invariants_witness:
  "transp ((<) :: int \<Rightarrow> int \<Rightarrow> bool) \<and>
   list_all draws_ok [OpInit [5, 2, 8 :: int], OpRandInit (\<lambda>i. 0) [6, 9], OpDelete 5, OpInsert 7] \<and>
   (\<exists>T' t. run (New (<) store0 0)
               (take 4 [OpInit [5, 2, 8 :: int], OpRandInit (\<lambda>i. 0) [6, 9], OpDelete 5, OpInsert 7])
             = Some (Inr T') \<and> invariants (<) T' t)"
proof -
  have t: "transp ((<) :: int \<Rightarrow> int \<Rightarrow> bool)" by simp
  have d: "list_all draws_ok [OpInit [5, 2, 8 :: int], OpRandInit (\<lambda>i. 0) [6, 9], OpDelete 5, OpInsert 7]"
    by simp
  from reachable_invariants[OF t d, of store0 0 4] t d show ?thesis by blast
qed

text \<open>
  C6. For every slice \<open>vs\<close> and all draws \<open>rnd i \<le> i\<close>, under a strict weak order:
  \<open>RandInit(vs)\<close> on the empty tree returns, and is \<open>Init\<close> on a permutation
  \<open>ws\<close> of \<open>vs\<close>, each element inserted exactly once. The tree it builds and the
  tree \<open>Init(vs)\<close> builds have the same size and strictly ascending in-order
  sequences that agree element by element up to comparator equality; where
  comparator-equal values are identical, the two sequences are the same list and the
  stored values are exactly those of \<open>vs\<close>.
\<close>

theorem RandInit_refines_Init:
  assumes "\<forall>i<length vs. rnd i \<le> i" "asymp lt" "transp lt" "transp (eqv lt)"
  shows "\<exists>ws T1 T2 t1 t2.
           mset ws = mset vs \<and>
           RandInit rnd (New lt h0 f) vs = Some (Inr T2) \<and> Init (New lt h0 f) ws = Some T2 \<and>
           Init (New lt h0 f) vs = Some T1 \<and>
           invariants lt T1 t1 \<and> invariants lt T2 t2 \<and>
           Len T1 = Len T2 \<and>
           sorted_wrt lt (inorder t1) \<and> sorted_wrt lt (inorder t2) \<and>
           list_all2 (eqv lt) (inorder t1) (inorder t2) \<and>
           ((\<forall>a b. eqv lt a b \<longrightarrow> a = b) \<longrightarrow>
              inorder t1 = inorder t2 \<and> set (inorder t1) = set vs \<and> set (inorder t2) = set vs)"
proof -
  define ws where "ws = map ((!) vs) (draw_order rnd (length vs) [0..<length vs])"
  let ?N = "New lt h0 f"
  let ?t1 = "ins_list lt vs (fresh ?N) Tip" and ?t2 = "ins_list lt ws (fresh ?N) Tip"
  have irr: "\<not> lt u u" for u using asympD[OF assms(2)] by blast
  have sym: "eqv lt u w \<Longrightarrow> eqv lt w u" for u w by (simp add: eqv_def)
  have ms: "mset ws = mset vs" unfolding ws_def by (rule RandInit_Init(2)[OF assms(1)])
  then have se: "set ws = set vs" by (metis set_mset_mset)
  from Init_inv[OF New_invariants, of lt h0 f vs] obtain T1 where
    T1: "Init ?N vs = Some T1" "invariants lt T1 ?t1" by blast
  from Init_inv[OF New_invariants, of lt h0 f ws] obtain T2 where
    T2: "Init ?N ws = Some T2" "invariants lt T2 ?t2" by blast
  have R: "RandInit rnd ?N vs = Some (Inr T2)"
    using RandInit_Init(1)[OF assms(1), of ?N] T2(1) by (simp add: ws_def)
  from ins_list_sets[of lt Tip vs "fresh ?N"] irr have
    a1: "set (inorder ?t1) \<subseteq> set vs" and a2: "\<forall>v\<in>set vs. \<exists>x\<in>set (inorder ?t1). eqv lt v x"
    by auto
  from ins_list_sets[of lt Tip ws "fresh ?N"] irr have
    "set (inorder ?t2) \<subseteq> set ws" and "\<forall>v\<in>set ws. \<exists>x\<in>set (inorder ?t2). eqv lt v x"
    by auto
  then have b1: "set (inorder ?t2) \<subseteq> set vs"
    and b2: "\<forall>v\<in>set vs. \<exists>x\<in>set (inorder ?t2). eqv lt v x"
    unfolding se by blast+
  have s1: "sorted_wrt lt (inorder ?t1)" using sorted_inorder[OF assms(3)] T1(2)
    by (simp add: invariants_def)
  have s2: "sorted_wrt lt (inorder ?t2)" using sorted_inorder[OF assms(3)] T2(2)
    by (simp add: invariants_def)
  have c1: "\<forall>x\<in>set (inorder ?t1). \<exists>y\<in>set (inorder ?t2). eqv lt x y" using a1 b2 by blast
  have c2: "\<forall>y\<in>set (inorder ?t2). \<exists>x\<in>set (inorder ?t1). eqv lt y x" using b1 a2 by blast
  have l2: "list_all2 (eqv lt) (inorder ?t1) (inorder ?t2)"
    by (rule sorted_eqv_unique[OF assms(2,3,4) s1 s2 c1 c2])
  have len: "Len T1 = Len T2"
    using list_all2_lengthD[OF l2] T1(2) T2(2)
    by (simp add: Len_def invariants_def length_addrs_inorder)
  have lin: "inorder ?t1 = inorder ?t2 \<and> set (inorder ?t1) = set vs \<and> set (inorder ?t2) = set vs"
    if id: "\<forall>a b. eqv lt a b \<longrightarrow> a = b"
  proof -
    have "list_all2 (=) (inorder ?t1) (inorder ?t2)"
      using list_all2_mono[OF l2] id by blast
    then have "inorder ?t1 = inorder ?t2" by (simp add: list.rel_eq)
    moreover have "set vs \<subseteq> set (inorder ?t1)" using a2 id by blast
    ultimately show ?thesis using a1 by auto
  qed
  show ?thesis
    using ms R T2 T1 len s1 s2 l2 lin
    by (intro exI[of _ ws] exI[of _ T1] exI[of _ T2] exI[of _ ?t1] exI[of _ ?t2]) blast
qed

theorem RandInit_refines_Init_witness:
  "list_all (\<lambda>i. (0::nat) \<le> i) [0..<length [5, 2, 8 :: int]] \<and>
   asymp ((<) :: int \<Rightarrow> int \<Rightarrow> bool) \<and> transp ((<) :: int \<Rightarrow> int \<Rightarrow> bool) \<and>
   transp (eqv ((<) :: int \<Rightarrow> int \<Rightarrow> bool)) \<and>
   (\<exists>T1 T2 t1 t2.
      RandInit (\<lambda>i. 0) (New (<) store0 0) [5, 2, 8] = Some (Inr T2) \<and>
      Init (New (<) store0 0) [5, 2, 8] = Some T1 \<and>
      invariants (<) T1 t1 \<and> invariants (<) T2 t2 \<and>
      Len T1 = Len T2 \<and> inorder t1 = inorder t2 \<and> set (inorder t1) = {2, 5, 8})"
proof -
  have d: "\<forall>i<length [5, 2, 8 :: int]. (\<lambda>i. 0 :: nat) i \<le> i" by simp
  have a: "asymp ((<) :: int \<Rightarrow> int \<Rightarrow> bool)" and t: "transp ((<) :: int \<Rightarrow> int \<Rightarrow> bool)"
    by simp_all
  have i: "\<forall>a b :: int. eqv (<) a b \<longrightarrow> a = b" by (auto simp: eqv_def)
  from RandInit_refines_Init[OF d a t eqv_int, of store0 0]
  obtain ws T1 T2 t1 t2 where
    1: "RandInit (\<lambda>i. 0) (New (<) store0 0) [5, 2, 8] = Some (Inr T2)"
       "Init (New (<) store0 0) [5, 2, 8] = Some T1"
       "invariants (<) T1 t1" "invariants (<) T2 t2" "Len T1 = Len T2"
    and 2: "(\<forall>a b :: int. eqv (<) a b \<longrightarrow> a = b) \<longrightarrow>
              inorder t1 = inorder t2 \<and> set (inorder t1) = set [5, 2, 8] \<and>
              set (inorder t2) = set [5, 2, 8]"
    by (elim exE conjE) (rule that)
  from 2 i have 3: "inorder t1 = inorder t2" "set (inorder t1) = set [5, 2, 8 :: int]" by blast+
  have 4: "set [5, 2, 8 :: int] = {2, 5, 8}" by auto
  have l: "list_all (\<lambda>i. (0::nat) \<le> i) [0..<length [5, 2, 8 :: int]]" by simp
  from 1 3 have "\<exists>T1 T2 t1 t2.
      RandInit (\<lambda>i. 0) (New (<) store0 0) [5, 2, 8] = Some (Inr T2) \<and>
      Init (New (<) store0 0) [5, 2, 8] = Some T1 \<and>
      invariants (<) T1 t1 \<and> invariants (<) T2 t2 \<and>
      Len T1 = Len T2 \<and> inorder t1 = inorder t2 \<and> set (inorder t1) = {2, 5, 8}"
    unfolding 4 by blast
  with l a t eqv_int show ?thesis by (intro conjI)
qed

end
